theory Spec2Isabelle
  imports Main "HOL-Library.Sublist"
begin

section \<open>The replay-buffer test bench (tb/axis\_replay\_buffer.py)\<close>

text \<open>
  The bench is a set of coroutines that run against a simulated design. A coroutine
  reads the levels of the design's pins, writes levels to the pins it drives, and
  suspends until a clock edge. The design itself is not part of the bench, so the
  levels a coroutine reads are a parameter: a waveform giving, for every clock edge,
  the levels visible at that edge.

  Clock edges are numbered 0, 1, 2, ... starting with the falling edge that
  \<^verbatim>\<open>test_replay\<close> waits for before it starts its coroutines (line 45). Edges alternate,
  so even numbers are falling edges and odd numbers are rising edges.
  The simulation covers the edges below a horizon \<open>hz\<close>; a coroutine that waits for an
  edge at or beyond the horizon never resumes, and the run ends as \<open>Sim_ended\<close>.

  The sending coroutine and the receiving loop of the test run side by side and meet only
  through the design, so each is modelled on its own against the waveform. The clock, the
  clock-enable coroutine that paces \<open>m_axis_ready\<close> and the time limit of the test come
  from cocotb and from the bench's utility module; of these only the triggers the bench
  awaits and the assignment to a pin are modelled.
\<close>

subsection \<open>Pins, events and outcomes\<close>

definition BUF_SIZE :: nat where
  "BUF_SIZE = 54"

text \<open>The levels the bench reads. \<open>m_axis_ready\<close> is written by the clock-enable
  coroutine of the bench's utilities and read back here like a pin of the design.\<close>

record levels =
  s_axis_ready :: bool
  m_axis_valid :: bool
  m_axis_ready :: bool
  m_axis_data :: int
  m_axis_last :: bool
  replayable :: bool

type_synonym wave = "nat \<Rightarrow> levels"

text \<open>What a coroutine does that is visible from outside: a write to a pin
  (\<open>Drive_...\<close>), a beat that passed both assertions of \<^verbatim>\<open>recv_len\<close> at a position of
  the packet (\<open>Beat\<close>), and a clock cycle spent inside \<^verbatim>\<open>ClockCycles\<close> (\<open>Waited\<close>).
  A write is in the log only when the pin took it: the data pin takes an integer.\<close>

datatype event =
    Drive_data int
  | Drive_err bool
  | Drive_valid bool
  | Drive_last bool
  | Drive_ready bool
  | Drive_replay bool
  | Drive_done bool
  | Beat nat
  | Waited

text \<open>How a coroutine ends other than by returning: one of the three assertions of the
  bench fails, an assignment to a pin raises \<^verbatim>\<open>TypeError\<close>, or the simulation ends while
  the coroutine waits.\<close>

datatype failure = Assert_data | Assert_last | Assert_replayable | Type_error | Sim_ended

text \<open>The state of a run: the edge the coroutine is at, and the events so far, each with
  the edge at which it happened.\<close>

record sim =
  now :: nat
  log :: "(nat \<times> event) list"

datatype outcome = Passed sim | Failed failure sim

fun final :: "outcome \<Rightarrow> sim" where
  "final (Passed s) = s"
| "final (Failed e s) = s"

fun passed :: "outcome \<Rightarrow> bool" where
  "passed (Passed s) = True"
| "passed (Failed e s) = False"

text \<open>Statements in sequence; an exception ends the sequence.\<close>

fun seq :: "(sim \<Rightarrow> outcome) list \<Rightarrow> sim \<Rightarrow> outcome" where
  "seq [] s = Passed s"
| "seq (f # fs) s = (case f s of Passed s' \<Rightarrow> seq fs s' | Failed e s' \<Rightarrow> Failed e s')"

definition emit :: "event \<Rightarrow> sim \<Rightarrow> sim" where
  "emit e s = s\<lparr>log := log s @ [(now s, e)]\<rparr>"

definition drive :: "event \<Rightarrow> sim \<Rightarrow> outcome" where
  "drive e s = Passed (emit e s)"

subsection \<open>Triggers\<close>

text \<open>A trigger resumes the coroutine at the next edge of its kind strictly after the
  current one.\<close>

definition next_rising :: "nat \<Rightarrow> nat" where
  "next_rising t = (if odd t then t + 2 else t + 1)"

definition next_falling :: "nat \<Rightarrow> nat" where
  "next_falling t = (if even t then t + 2 else t + 1)"

definition await :: "nat \<Rightarrow> nat \<Rightarrow> sim \<Rightarrow> outcome" where
  "await hz t s = (if t < hz then Passed (s\<lparr>now := t\<rparr>) else Failed Sim_ended s)"

definition RisingEdge :: "nat \<Rightarrow> sim \<Rightarrow> outcome" where
  "RisingEdge hz s = await hz (next_rising (now s)) s"

definition FallingEdge :: "nat \<Rightarrow> sim \<Rightarrow> outcome" where
  "FallingEdge hz s = await hz (next_falling (now s)) s"

text \<open>\<^verbatim>\<open>ClockCycles(clk, n, rising)\<close>: \<open>n\<close> edges of the given kind. The bench calls it with
  3, and with \<^verbatim>\<open>ratio - 1\<close> for a ratio other than 1; the ratios of the generated tests are
  1 and 4, and the statements about sending take a ratio of at least 1.\<close>

fun ClockCycles :: "nat \<Rightarrow> bool \<Rightarrow> nat \<Rightarrow> sim \<Rightarrow> outcome" where
  "ClockCycles hz rising 0 s = Passed s"
| "ClockCycles hz rising (Suc n) s =
     (case (if rising then RisingEdge hz s else FallingEdge hz s) of
        Passed s' \<Rightarrow> ClockCycles hz rising n (emit Waited s')
      | Failed e s' \<Rightarrow> Failed e s')"

subsection \<open>Python list slicing\<close>

text \<open>\<^verbatim>\<open>xs[:k]\<close>: a negative \<open>k\<close> counts from the end, and the result is empty when that
  falls before the start.\<close>

definition py_take :: "int \<Rightarrow> 'a list \<Rightarrow> 'a list" where
  "py_take k xs = (if k < 0 then take (nat (int (length xs) + k)) xs else take (nat k) xs)"

subsection \<open>send\_packet\<close>

text \<open>Modelled from the spec: \<^verbatim>\<open>lookahead\<close>, which \<^verbatim>\<open>send_packet\<close> iterates with, is
  defined in the bench's utility module (\<^verbatim>\<open>.util\<close>) and not in this file of the bench. The
  spec has packets built as \<open>[word_0 \<dots> word_{k-1}]\<close> "with \<open>last\<close>
  true only on the final word", so \<open>lookahead\<close> pairs each element with the flag that
  says whether it is the final one.\<close>

fun lookahead :: "'a list \<Rightarrow> ('a \<times> bool) list" where
  "lookahead [] = []"
| "lookahead [x] = [(x, True)]"
| "lookahead (x # y # ys) = (x, False) # lookahead (y # ys)"

text \<open>The inner loop of \<^verbatim>\<open>send_packet\<close> (lines 27 to 30): wait for a falling edge until
  \<open>ready\<close> reads high at one. The wait for the edge is written out, so that the edge
  counts down to the horizon; \<open>wait_ready_FallingEdge\<close> below gives the loop in terms of
  \<open>FallingEdge\<close>.\<close>

function wait_ready :: "wave \<Rightarrow> nat \<Rightarrow> sim \<Rightarrow> outcome" where
  "wait_ready w hz s =
     (if next_falling (now s) < hz
      then (let s' = s\<lparr>now := next_falling (now s)\<rparr> in
            if s_axis_ready (w (now s')) then Passed s' else wait_ready w hz s')
      else Failed Sim_ended s)"
  by pat_completeness auto
termination
  by (relation "measure (\<lambda>(w, hz, s). hz - now s)") (auto simp: next_falling_def)

declare wait_ready.simps [simp del]

text \<open>\<^verbatim>\<open>signals['data'].value = val\<close> (lines 17, 20 and 23). The pins are cocotb handles:
  the assignment of an integer is a write to the pin, and the assignment of \<^verbatim>\<open>None\<close> raises
  \<^verbatim>\<open>TypeError\<close> in the setter, before anything is written.\<close>

definition write_data :: "int option \<Rightarrow> sim \<Rightarrow> outcome" where
  "write_data val s =
     (case val of
        Some v \<Rightarrow> drive (Drive_data v) s
      | None \<Rightarrow> Failed Type_error s)"

text \<open>The body of the loop of \<^verbatim>\<open>send_packet\<close> for one element \<open>val\<close> with its flag
  \<open>last\<close>; \<open>has_err\<close> says whether the signal map has the key \<^verbatim>\<open>'err'\<close>. Only line 16
  tests the element for \<^verbatim>\<open>None\<close>; line 23 assigns it as it is.\<close>

definition send_beat :: "wave \<Rightarrow> nat \<Rightarrow> bool \<Rightarrow> nat \<Rightarrow> int option \<times> bool \<Rightarrow> sim \<Rightarrow> outcome" where
  "send_beat w hz has_err ratio vl =
     seq ((if has_err
           then (if fst vl = None
                 then [write_data (Some 0), drive (Drive_err True)]
                 else [write_data (fst vl), drive (Drive_err False)])
           else [write_data (fst vl)])
          @ [drive (Drive_valid True),
             drive (Drive_last (snd vl)),
             RisingEdge hz,
             wait_ready w hz,
             drive (Drive_valid False)]
          @ (if ratio \<noteq> 1 then [ClockCycles hz False (ratio - 1)] else []))"

definition send_packet :: "wave \<Rightarrow> nat \<Rightarrow> bool \<Rightarrow> int option list \<Rightarrow> nat \<Rightarrow> sim \<Rightarrow> outcome" where
  "send_packet w hz has_err packet ratio =
     seq (map (send_beat w hz has_err ratio) (lookahead packet))"

subsection \<open>recv\<close>

text \<open>\<^verbatim>\<open>handshake\<close> (lines 65 to 67): read valid and ready where the coroutine stands, and
  move to the next rising edge for as long as one of them is low. Again the wait is
  written out; \<open>handshake_RisingEdge\<close> below gives the loop in terms of \<open>RisingEdge\<close>.\<close>

function handshake :: "wave \<Rightarrow> nat \<Rightarrow> sim \<Rightarrow> outcome" where
  "handshake w hz s =
     (if \<not> m_axis_valid (w (now s)) \<or> \<not> m_axis_ready (w (now s))
      then (if next_rising (now s) < hz
            then handshake w hz (s\<lparr>now := next_rising (now s)\<rparr>)
            else Failed Sim_ended s)
      else Passed s)"
  by pat_completeness auto
termination
  by (relation "measure (\<lambda>(w, hz, s). hz - now s)") (auto simp: next_rising_def)

declare handshake.simps [simp del]

text \<open>The two assertions of \<^verbatim>\<open>recv_len\<close> (lines 72 and 73) on the beat at position \<open>i\<close>,
  expected to carry \<open>val\<close>, of a packet of \<open>n\<close> elements.\<close>

definition check_beat :: "wave \<Rightarrow> nat \<Rightarrow> nat \<times> int \<Rightarrow> sim \<Rightarrow> outcome" where
  "check_beat w n iv s =
     (if m_axis_data (w (now s)) \<noteq> snd iv then Failed Assert_data s
      else if m_axis_last (w (now s)) \<noteq> (int (fst iv) = int n - 1) then Failed Assert_last s
      else Passed (emit (Beat (fst iv)) s))"

definition recv_beat :: "wave \<Rightarrow> nat \<Rightarrow> nat \<Rightarrow> nat \<times> int \<Rightarrow> sim \<Rightarrow> outcome" where
  "recv_beat w hz n iv = seq [handshake w hz, check_beat w n iv, RisingEdge hz]"

definition recv_len :: "wave \<Rightarrow> nat \<Rightarrow> int list \<Rightarrow> int \<Rightarrow> sim \<Rightarrow> outcome" where
  "recv_len w hz packet len =
     seq (map (recv_beat w hz (length packet)) (enumerate 0 (py_take len packet)))"

definition check_replayable :: "wave \<Rightarrow> sim \<Rightarrow> outcome" where
  "check_replayable w s =
     (if replayable (w (now s)) then Passed s else Failed Assert_replayable s)"

definition restart :: "wave \<Rightarrow> nat \<Rightarrow> sim \<Rightarrow> outcome" where
  "restart w hz =
     seq [FallingEdge hz,
          check_replayable w,
          drive (Drive_replay True),
          FallingEdge hz,
          drive (Drive_replay False)]"

definition recv :: "wave \<Rightarrow> nat \<Rightarrow> int list \<Rightarrow> sim \<Rightarrow> outcome" where
  "recv w hz packet =
     (let replayable_len = min (int (length packet)) (int BUF_SIZE) in
      seq [drive (Drive_done False),
           recv_len w hz packet (replayable_len - 3),
           restart w hz,
           recv_len w hz packet (replayable_len - 2),
           (if length packet \<le> BUF_SIZE then ClockCycles hz True 3 else Passed),
           restart w hz,
           drive (Drive_done True),
           recv_len w hz packet (int (length packet))])"

subsection \<open>test\_replay\<close>

definition packets :: "int list list" where
  "packets = [map int [0..<54], map int [64..<128], map int [128..<512]]"

text \<open>The writes of lines 37 to 41 happen before the clock starts; they are recorded at
  edge 0, the falling edge the test then waits for.\<close>

definition start :: sim where
  "start = \<lparr>now = 0,
            log = [(0, Drive_valid False), (0, Drive_last False), (0, Drive_ready True),
                   (0, Drive_replay False), (0, Drive_done False)]\<rparr>"

text \<open>The sending coroutine of the test: every packet in turn, on a signal map without
  \<^verbatim>\<open>'err'\<close>.\<close>

definition send :: "wave \<Rightarrow> nat \<Rightarrow> nat \<Rightarrow> sim \<Rightarrow> outcome" where
  "send w hz in_ratio =
     seq (map (\<lambda>packet. send_packet w hz False (map Some packet) in_ratio) packets)"

text \<open>The test starts the sending coroutine (line 97) and then receives every packet in
  turn (lines 98 and 99); it ends when this loop ends. Its parameters \<^verbatim>\<open>in_ratio\<close> and
  \<^verbatim>\<open>out_ratio\<close> pace the sending coroutine and the clock-enable coroutine, and reach the
  receiving loop only through the waveform.\<close>

definition test_replay :: "wave \<Rightarrow> nat \<Rightarrow> outcome" where
  "test_replay w hz = seq (map (recv w hz) packets) start"


section \<open>Vocabulary of the statements\<close>

subsection \<open>What a run added to the log\<close>

text \<open>The entries a run that started in state \<open>s\<close> and ended as \<open>r\<close> added to the log.\<close>

definition entries_since :: "sim \<Rightarrow> outcome \<Rightarrow> (nat \<times> event) list" where
  "entries_since s r = drop (length (log s)) (log (final r))"

text \<open>What holds of the levels at the edge of an entry: a beat is counted where valid
  and ready are high and data and last are those of its position in the packet; the
  replay pin is raised where replayable is high; valid is lowered at a falling edge where
  the ingress ready is high.\<close>

fun entry_ok :: "wave \<Rightarrow> int list \<Rightarrow> nat \<times> event \<Rightarrow> bool" where
  "entry_ok w packet (t, Beat i) =
     (i < length packet \<and> m_axis_valid (w t) \<and> m_axis_ready (w t) \<and>
      m_axis_data (w t) = packet ! i \<and>
      m_axis_last (w t) = (int i = int (length packet) - 1))"
| "entry_ok w packet (t, Drive_replay b) = (\<not> b \<or> replayable (w t))"
| "entry_ok w packet (t, Drive_valid b) = (b \<or> (even t \<and> s_axis_ready (w t)))"
| "entry_ok w packet (t, e) = True"

text \<open>A statement \<open>f\<close> \<open>does Q es\<close>: from any state it only appends to the log, every
  entry it appends satisfies \<open>Q\<close>, and the events it appends are \<open>es\<close> when it passes and
  a prefix of \<open>es\<close> when it fails.\<close>

definition does :: "(nat \<times> event \<Rightarrow> bool) \<Rightarrow> event list \<Rightarrow> (sim \<Rightarrow> outcome) \<Rightarrow> bool" where
  "does Q es f =
     (\<forall>s. \<exists>xs. log (final (f s)) = log s @ xs \<and> list_all Q xs \<and>
        (if passed (f s) then map snd xs = es else prefix (map snd xs) es))"

subsection \<open>Beats on the egress\<close>

text \<open>The egress has a beat at an edge when valid and ready are both high there.\<close>

definition handshake_at :: "wave \<Rightarrow> nat \<Rightarrow> bool" where
  "handshake_at w t = (m_axis_valid (w t) \<and> m_axis_ready (w t))"

text \<open>The edges at which a receiver that stands at edge \<open>t0\<close> and moves from rising edge
  to rising edge looks at the egress: \<open>t0\<close> itself, then every rising edge after it.\<close>

definition looks_at :: "nat \<Rightarrow> nat \<Rightarrow> bool" where
  "looks_at t0 u = (u = t0 \<or> (t0 < u \<and> odd u))"

text \<open>\<open>t\<close> is the first of these edges at which the egress has a beat.\<close>

definition first_handshake :: "wave \<Rightarrow> nat \<Rightarrow> nat \<Rightarrow> bool" where
  "first_handshake w t0 t =
     (looks_at t0 t \<and> handshake_at w t \<and>
      (\<forall>u \<in> set [t0..<t]. looks_at t0 u \<longrightarrow> \<not> handshake_at w u))"

text \<open>The edges \<open>ts\<close> are those of the successive beats of the egress as seen from
  \<open>t0\<close>: the first beat from \<open>t0\<close> on, then the first beat from the rising edge after
  it on, and so on, none left out. The beat at egress position \<open>i\<close> is the one at
  \<open>ts ! i\<close>.\<close>

fun handshakes :: "wave \<Rightarrow> nat \<Rightarrow> nat list \<Rightarrow> bool" where
  "handshakes w t0 [] = True"
| "handshakes w t0 (t # ts) = (first_handshake w t0 t \<and> handshakes w (next_rising t) ts)"

text \<open>The edge a receiver stands at after the beats at \<open>ts\<close>.\<close>

fun after_beats :: "nat \<Rightarrow> nat list \<Rightarrow> nat" where
  "after_beats t0 [] = t0"
| "after_beats t0 (t # ts) = after_beats (next_rising t) ts"

subsection \<open>Levels on the ingress\<close>









subsection \<open>Event sequences\<close>

definition beats :: "nat \<Rightarrow> event list" where
  "beats k = map Beat [0..<k]"

text \<open>The events of one reception: done lowered, \<open>a\<close> beats, a replay pulse, \<open>b\<close>
  beats, \<open>k\<close> cycles of waiting, a second replay pulse, done raised, \<open>n\<close> beats.\<close>

definition choreography :: "nat \<Rightarrow> nat \<Rightarrow> nat \<Rightarrow> nat \<Rightarrow> event list" where
  "choreography a b k n =
     [Drive_done False] @ beats a
     @ [Drive_replay True, Drive_replay False] @ beats b
     @ replicate k Waited
     @ [Drive_replay True, Drive_replay False, Drive_done True] @ beats n"

definition recv_script :: "int list \<Rightarrow> event list" where
  "recv_script packet =
     (let replayable_len = min (int (length packet)) (int BUF_SIZE) in
      choreography (length (py_take (replayable_len - 3) packet))
        (length (py_take (replayable_len - 2) packet))
        (if length packet \<le> BUF_SIZE then 3 else 0)
        (length packet))"

text \<open>The pin writes that put one element on the ingress, and all events of its turn in
  the loop of \<^verbatim>\<open>send_packet\<close>. For \<^verbatim>\<open>None\<close> on a signal map without \<^verbatim>\<open>'err'\<close> the turn
  ends before its first write, and \<open>drives\<close> lists the writes it does not reach.\<close>

definition drives :: "bool \<Rightarrow> int option \<times> bool \<Rightarrow> event list" where
  "drives has_err vl =
     (case fst vl of
        None \<Rightarrow> (if has_err then [Drive_data 0, Drive_err True] else [])
      | Some v \<Rightarrow> (if has_err then [Drive_data v, Drive_err False] else [Drive_data v]))
     @ [Drive_valid True, Drive_last (snd vl)]"

definition beat_events :: "bool \<Rightarrow> nat \<Rightarrow> int option \<times> bool \<Rightarrow> event list" where
  "beat_events has_err ratio vl =
     drives has_err vl @ [Drive_valid False] @ replicate (ratio - 1) Waited"

text \<open>The values written to one pin, in order.\<close>

fun driven_data :: "event list \<Rightarrow> int list" where
  "driven_data [] = []"
| "driven_data (Drive_data v # es) = v # driven_data es"
| "driven_data (e # es) = driven_data es"

fun driven_err :: "event list \<Rightarrow> bool list" where
  "driven_err [] = []"
| "driven_err (Drive_err b # es) = b # driven_err es"
| "driven_err (e # es) = driven_err es"

fun driven_last :: "event list \<Rightarrow> bool list" where
  "driven_last [] = []"
| "driven_last (Drive_last b # es) = b # driven_last es"
| "driven_last (e # es) = driven_last es"

fun driven_done :: "event list \<Rightarrow> bool list" where
  "driven_done [] = []"
| "driven_done (Drive_done b # es) = b # driven_done es"
| "driven_done (e # es) = driven_done es"

subsection \<open>Waveforms of a design that cooperates\<close>

text \<open>The edges at which \<^verbatim>\<open>recv_len\<close> samples when every sample finds a beat: the edge
  it starts at, then the rising edges that follow.\<close>

definition sample :: "nat \<Rightarrow> nat \<Rightarrow> nat" where
  "sample t j = (if j = 0 then t else next_rising t + 2 * (j - 1))"

text \<open>A waveform is described by phases, each an edge at which the design starts to put
  the beats of a packet on the egress, one at every sample of \<^verbatim>\<open>recv_len\<close>. Valid and both
  ready pins are always high; \<open>rp\<close> gives replayable.\<close>

fun phase_at :: "(nat \<times> int list) list \<Rightarrow> nat \<Rightarrow> nat \<times> int list" where
  "phase_at [] t = (0, [])"
| "phase_at [p] t = p"
| "phase_at (p # q # ps) t = (if t < fst q then p else phase_at (q # ps) t)"

definition bench_wave :: "(nat \<times> int list) list \<Rightarrow> (nat \<Rightarrow> bool) \<Rightarrow> wave" where
  "bench_wave phases rp t =
     (let t0 = fst (phase_at phases t); packet = snd (phase_at phases t);
          i = (t - t0 + (if even t0 then 1 else 0)) div 2
      in \<lparr>s_axis_ready = True, m_axis_valid = True, m_axis_ready = True,
          m_axis_data = (if i < length packet then packet ! i else 0),
          m_axis_last = (i + 1 = length packet), replayable = rp t\<rparr>)"

text \<open>The phases of a whole test in which every beat is there at once.\<close>

definition test_phases :: "(nat \<times> int list) list" where
  "test_phases =
     [(0, packets ! 0), (104, packets ! 0), (216, packets ! 0),
      (323, packets ! 1), (428, packets ! 1), (534, packets ! 1),
      (661, packets ! 2), (766, packets ! 2), (872, packets ! 2)]"

definition coop_wave :: wave where
  "coop_wave = bench_wave test_phases (\<lambda>t. True)"

text \<open>The same, but with replayable high only at the edges where the test reads it for
  its first packet.\<close>

definition dip_wave :: wave where
  "dip_wave = bench_wave test_phases (\<lambda>t. t = 102 \<or> t = 214)"

text \<open>A design whose ingress is ready at every second falling edge, and whose egress
  never has a beat.\<close>

definition ingress_wave :: wave where
  "ingress_wave t =
     \<lparr>s_axis_ready = (t mod 4 = 0), m_axis_valid = False, m_axis_ready = False,
      m_axis_data = 0, m_axis_last = False, replayable = False\<rparr>"

text \<open>The log of a reception of \<open>n\<close> elements that starts at edge \<open>t0\<close>, resumes after its
  replays at the edges \<open>a\<close> and \<open>b\<close>, and never waits for a beat.\<close>

definition pass_log :: "nat \<Rightarrow> nat \<Rightarrow> nat \<Rightarrow> nat \<Rightarrow> (nat \<times> event) list" where
  "pass_log t0 a b n =
     [(t0, Drive_done False)] @ map (\<lambda>j. (sample t0 j, Beat j)) [0..<min n 54 - 3]
     @ [(a - 2, Drive_replay True), (a, Drive_replay False)]
     @ map (\<lambda>j. (sample a j, Beat j)) [0..<min n 54 - 2]
     @ (if n \<le> 54 then [(b - 7, Waited), (b - 5, Waited), (b - 3, Waited)] else [])
     @ [(b - 2, Drive_replay True), (b, Drive_replay False), (b, Drive_done True)]
     @ map (\<lambda>j. (sample b j, Beat j)) [0..<n]"



text \<open>A design whose egress has a beat at every second rising edge, the beats counting
  up from 0 with last on the third.\<close>

definition paced_wave :: wave where
  "paced_wave t =
     \<lparr>s_axis_ready = True, m_axis_valid = (t mod 4 = 1), m_axis_ready = True,
      m_axis_data = int (t div 4), m_axis_last = (t div 4 = 2), replayable = True\<rparr>"

section \<open>Composition of statements\<close>

lemma seq_append:
  "seq (fs @ gs) s = (case seq fs s of Passed s' \<Rightarrow> seq gs s' | Failed e s' \<Rightarrow> Failed e s')"
  by (induction fs arbitrary: s) (auto split: outcome.splits)

lemma seq_flat: "seq (seq fs # gs) = seq (fs @ gs)"
  by (rule ext) (simp add: seq_append)

lemma seq_drives:
  "seq (map drive es) s = Passed (s\<lparr>log := log s @ map (Pair (now s)) es\<rparr>)"
  by (induction es arbitrary: s) (simp_all add: drive_def emit_def)

lemma does_nil: "does Q [] (seq [])"
  by (simp add: does_def)

lemma does_cons:
  assumes f: "does Q es f" and g: "does Q es' (seq fs)"
  shows "does Q (es @ es') (seq (f # fs))"
  unfolding does_def
proof
  fix s
  from f obtain xs where xs: "log (final (f s)) = log s @ xs" "list_all Q xs"
    "if passed (f s) then map snd xs = es else prefix (map snd xs) es"
    unfolding does_def by blast
  show "\<exists>xs. log (final (seq (f # fs) s)) = log s @ xs \<and> list_all Q xs \<and>
        (if passed (seq (f # fs) s) then map snd xs = es @ es'
         else prefix (map snd xs) (es @ es'))"
  proof (cases "f s")
    case (Failed e s')
    with xs show ?thesis by (auto simp: prefix_def)
  next
    case (Passed s')
    from g obtain ys where ys: "log (final (seq fs s')) = log s' @ ys" "list_all Q ys"
      "if passed (seq fs s') then map snd ys = es' else prefix (map snd ys) es'"
      unfolding does_def by blast
    from Passed xs ys show ?thesis
      by (intro exI[of _ "xs @ ys"]) (auto simp: prefix_def)
  qed
qed

lemma does_map:
  assumes "\<And>x. x \<in> set xs \<Longrightarrow> does Q (h x) (g x)"
  shows "does Q (concat (map h xs)) (seq (map g xs))"
  using assms by (induction xs) (auto intro: does_nil does_cons)

lemma does_weaken: "does Q es f \<Longrightarrow> (\<And>x. Q x \<Longrightarrow> Q' x) \<Longrightarrow> does Q' es f"
  unfolding does_def by (metis list.pred_mono_strong)

lemma does_entries:
  assumes "does Q es f"
  shows "log (final (f s)) = log s @ entries_since s (f s)"
    and "list_all Q (entries_since s (f s))"
    and "prefix (map snd (entries_since s (f s))) es"
    and "passed (f s) \<Longrightarrow> map snd (entries_since s (f s)) = es"
proof -
  from assms obtain xs where xs: "log (final (f s)) = log s @ xs" "list_all Q xs"
    "if passed (f s) then map snd xs = es else prefix (map snd xs) es"
    unfolding does_def by blast
  then have e: "entries_since s (f s) = xs" by (simp add: entries_since_def)
  from xs show "log (final (f s)) = log s @ entries_since s (f s)"
    and "list_all Q (entries_since s (f s))"
    and "prefix (map snd (entries_since s (f s))) es"
    and "passed (f s) \<Longrightarrow> map snd (entries_since s (f s)) = es"
    unfolding e by (auto split: if_splits)
qed

lemma entries_since_Passed [simp]:
  "entries_since s (Passed \<lparr>now = t, log = log s @ xs\<rparr>) = xs"
  by (simp add: entries_since_def)

section \<open>The statements of the bench, one by one\<close>

text \<open>The two loops, as the bench writes them.\<close>

lemma wait_ready_FallingEdge:
  "wait_ready w hz s =
     (case FallingEdge hz s of
        Passed s' \<Rightarrow> if s_axis_ready (w (now s')) then Passed s' else wait_ready w hz s'
      | Failed e s' \<Rightarrow> Failed e s')"
  by (subst wait_ready.simps) (simp add: FallingEdge_def await_def Let_def)

lemma handshake_RisingEdge:
  "handshake w hz s =
     (if \<not> m_axis_valid (w (now s)) \<or> \<not> m_axis_ready (w (now s))
      then (case RisingEdge hz s of
              Passed s' \<Rightarrow> handshake w hz s'
            | Failed e s' \<Rightarrow> Failed e s')
      else Passed s)"
  by (subst handshake.simps) (simp add: RisingEdge_def await_def)

lemma does_drive: "(\<And>t. Q (t, e)) \<Longrightarrow> does Q [e] (drive e)"
  by (simp add: does_def drive_def emit_def)

lemma does_RisingEdge: "does Q [] (RisingEdge hz)"
  by (simp add: does_def RisingEdge_def await_def)

lemma does_FallingEdge: "does Q [] (FallingEdge hz)"
  by (simp add: does_def FallingEdge_def await_def)

lemma does_Passed: "does Q [] Passed"
  by (simp add: does_def)

lemma does_ClockCycles:
  assumes "\<And>t. Q (t, Waited)"
  shows "does Q (replicate k Waited) (ClockCycles hz r k)"
proof (induction k)
  case 0
  show ?case by (simp add: does_def)
next
  case (Suc k)
  show ?case
    unfolding does_def
  proof
    fix s
    let ?e = "if r then RisingEdge hz s else FallingEdge hz s"
    show "\<exists>xs. log (final (ClockCycles hz r (Suc k) s)) = log s @ xs \<and> list_all Q xs \<and>
        (if passed (ClockCycles hz r (Suc k) s) then map snd xs = replicate (Suc k) Waited
         else prefix (map snd xs) (replicate (Suc k) Waited))"
    proof (cases ?e)
      case (Failed e s')
      then have "s' = s"
        by (auto simp: RisingEdge_def FallingEdge_def await_def split: if_splits)
      with Failed show ?thesis by simp
    next
      case (Passed s')
      then have l: "log s' = log s"
        by (auto simp: RisingEdge_def FallingEdge_def await_def split: if_splits)
      from Suc obtain ys where ys:
        "log (final (ClockCycles hz r k (emit Waited s'))) = log (emit Waited s') @ ys"
        "list_all Q ys"
        "if passed (ClockCycles hz r k (emit Waited s')) then map snd ys = replicate k Waited
         else prefix (map snd ys) (replicate k Waited)"
        unfolding does_def by blast
      from Passed l ys assms show ?thesis
        by (intro exI[of _ "(now s', Waited) # ys"]) (auto simp: emit_def)
    qed
  qed
qed

subsection \<open>Receiving\<close>

lemma handshake_log: "log (final (handshake w hz s)) = log s"
  by (induction w hz s rule: handshake.induct) (subst handshake.simps, simp)

lemma handshake_Passed:
  "handshake w hz s = Passed s' \<Longrightarrow> m_axis_valid (w (now s')) \<and> m_axis_ready (w (now s'))"
proof (induction w hz s rule: handshake.induct)
  case (1 w hz s)
  show ?case
  proof (cases "\<not> m_axis_valid (w (now s)) \<or> \<not> m_axis_ready (w (now s))")
    case True
    with "1.prems" have "next_rising (now s) < hz"
      and "handshake w hz (s\<lparr>now := next_rising (now s)\<rparr>) = Passed s'"
      by (subst (asm) handshake.simps, simp split: if_splits)+
    with True "1.IH" show ?thesis by blast
  next
    case False
    with "1.prems" show ?thesis
      by (subst (asm) handshake.simps) auto
  qed
qed

lemma handshake_ready:
  "m_axis_valid (w (now s)) \<Longrightarrow> m_axis_ready (w (now s)) \<Longrightarrow> handshake w hz s = Passed s"
  by (subst handshake.simps) simp

lemma does_recv_beat:
  assumes "i < length packet" and "v = packet ! i"
  shows "does (entry_ok w packet) [Beat i] (recv_beat w hz (length packet) (i, v))"
  unfolding does_def
proof
  fix s
  show "\<exists>xs. log (final (recv_beat w hz (length packet) (i, v) s)) = log s @ xs \<and>
          list_all (entry_ok w packet) xs \<and>
          (if passed (recv_beat w hz (length packet) (i, v) s) then map snd xs = [Beat i]
           else prefix (map snd xs) [Beat i])"
  proof (cases "handshake w hz s")
    case (Failed e s')
    with handshake_log[of w hz s] show ?thesis
      by (simp add: recv_beat_def)
  next
    case (Passed s')
    with handshake_log[of w hz s] handshake_Passed[OF Passed] assms show ?thesis
      by (auto simp: recv_beat_def check_beat_def emit_def RisingEdge_def await_def)
  qed
qed

lemma does_restart:
  "does (entry_ok w packet) [Drive_replay True, Drive_replay False] (restart w hz)"
  unfolding does_def
  by (auto simp: restart_def FallingEdge_def await_def check_replayable_def drive_def emit_def)

lemma py_take_nonneg: "0 \<le> k \<Longrightarrow> py_take k xs = take (nat k) xs"
  by (simp add: py_take_def)

lemma py_take_all: "py_take (int (length xs)) xs = xs"
  by (simp add: py_take_def)

lemma enumerate_py_take:
  assumes "x \<in> set (enumerate 0 (py_take k packet))"
  shows "fst x < length packet \<and> snd x = packet ! fst x"
proof -
  have "\<exists>m. py_take k packet = take m packet"
    by (cases "k < 0") (auto simp: py_take_def)
  then obtain m where m: "py_take k packet = take m packet" ..
  from assms have "(fst x, snd x) \<in> set (enumerate 0 (take m packet))"
    by (simp add: m)
  then show ?thesis
    by (auto simp: in_set_enumerate_eq)
qed

lemma map_Beat_enumerate:
  "map (\<lambda>x. Beat (fst x)) (enumerate 0 xs) = beats (length xs)"
  unfolding beats_def by (rule nth_equalityI) (simp_all add: nth_enumerate_eq)

lemma does_recv_len:
  "does (entry_ok w packet) (beats (length (py_take k packet))) (recv_len w hz packet k)"
proof -
  have "does (entry_ok w packet)
          (concat (map (\<lambda>x. [Beat (fst x)]) (enumerate 0 (py_take k packet))))
          (seq (map (recv_beat w hz (length packet)) (enumerate 0 (py_take k packet))))"
  proof (rule does_map)
    fix x assume "x \<in> set (enumerate 0 (py_take k packet))"
    from enumerate_py_take[OF this]
    show "does (entry_ok w packet) [Beat (fst x)] (recv_beat w hz (length packet) x)"
      using does_recv_beat[of "fst x" packet "snd x" w hz] by (cases x) simp
  qed
  then show ?thesis by (simp add: map_Beat_enumerate recv_len_def)
qed

lemma does_recv: "does (entry_ok w packet) (recv_script packet) (recv w hz packet)"
proof -
  let ?r = "min (int (length packet)) (int BUF_SIZE)"
  let ?k = "if length packet \<le> BUF_SIZE then 3 else 0 :: nat"
  have d: "\<And>b. does (entry_ok w packet) [Drive_done b] (drive (Drive_done b))"
    by (rule does_drive) simp
  have c: "does (entry_ok w packet) (replicate ?k Waited)
             (if length packet \<le> BUF_SIZE then ClockCycles hz True 3 else Passed)"
    by (auto intro: does_ClockCycles does_Passed)
  have l: "does (entry_ok w packet) (beats (length packet))
             (recv_len w hz packet (int (length packet)))"
    using does_recv_len[of w packet "int (length packet)" hz] by (simp add: py_take_all)
  have "does (entry_ok w packet)
     ([Drive_done False] @ beats (length (py_take (?r - 3) packet))
      @ [Drive_replay True, Drive_replay False]
      @ beats (length (py_take (?r - 2) packet))
      @ replicate ?k Waited
      @ [Drive_replay True, Drive_replay False]
      @ [Drive_done True]
      @ beats (length packet) @ [])
     (seq [drive (Drive_done False),
           recv_len w hz packet (?r - 3),
           restart w hz,
           recv_len w hz packet (?r - 2),
           (if length packet \<le> BUF_SIZE then ClockCycles hz True 3 else Passed),
           restart w hz,
           drive (Drive_done True),
           recv_len w hz packet (int (length packet))])"
    by (intro does_cons d c l does_recv_len does_restart does_nil)
  then show ?thesis
    by (simp add: recv_def recv_script_def choreography_def Let_def)
qed

lemma recv_entries:
  "log (final (recv w hz packet s)) = log s @ entries_since s (recv w hz packet s)"
  "list_all (entry_ok w packet) (entries_since s (recv w hz packet s))"
  "prefix (map snd (entries_since s (recv w hz packet s))) (recv_script packet)"
  "passed (recv w hz packet s) \<Longrightarrow>
     map snd (entries_since s (recv w hz packet s)) = recv_script packet"
  using does_entries[OF does_recv[of w packet hz], of s] by blast+

subsection \<open>Sending\<close>

lemma next_falling_even: "even (next_falling t)"
  by (simp add: next_falling_def)

lemma next_falling_least: "even u \<Longrightarrow> t < u \<Longrightarrow> next_falling t \<le> u"
  by (auto simp: next_falling_def elim!: evenE oddE)

lemma wait_ready_log: "log (final (wait_ready w hz s)) = log s"
  by (induction w hz s rule: wait_ready.induct)
     (subst wait_ready.simps, simp add: Let_def)

lemma wait_ready_Passed:
  "wait_ready w hz s = Passed s' \<Longrightarrow>
     now s < now s' \<and> even (now s') \<and> s_axis_ready (w (now s')) \<and>
     (\<forall>u. even u \<and> now s < u \<and> u < now s' \<longrightarrow> \<not> s_axis_ready (w u))"
proof (induction w hz s rule: wait_ready.induct)
  case (1 w hz s)
  let ?t = "next_falling (now s)"
  let ?s1 = "s\<lparr>now := ?t\<rparr>"
  have lt: "now s < ?t" by (simp add: next_falling_def)
  from "1.prems" have hz: "?t < hz"
    by (subst (asm) wait_ready.simps) (simp split: if_splits)
  show ?case
  proof (cases "s_axis_ready (w ?t)")
    case True
    with "1.prems" hz have "s' = ?s1"
      by (subst (asm) wait_ready.simps) (simp add: Let_def)
    moreover have "\<not> s_axis_ready (w u)" if "even u" "now s < u" "u < ?t" for u
      using next_falling_least[OF that(1,2)] that(3) by simp
    ultimately show ?thesis
      using True lt by (simp add: next_falling_even)
  next
    case False
    with "1.prems" hz have "wait_ready w hz ?s1 = Passed s'"
      by (subst (asm) wait_ready.simps) (simp add: Let_def)
    with "1.IH"[OF hz refl] False
    have ih: "now ?s1 < now s'" "even (now s')" "s_axis_ready (w (now s'))"
      "\<forall>u. even u \<and> now ?s1 < u \<and> u < now s' \<longrightarrow> \<not> s_axis_ready (w u)"
      by simp_all
    have "\<not> s_axis_ready (w u)" if "even u" "now s < u" "u < now s'" for u
    proof (cases "u = ?t")
      case True
      with False show ?thesis by simp
    next
      case False
      with next_falling_least[OF that(1,2)] have "?t < u" by simp
      with ih(4) that show ?thesis by simp
    qed
    with ih lt show ?thesis by auto
  qed
qed

lemma wait_ready_below: "wait_ready w hz s = Passed s' \<Longrightarrow> now s' < hz"
proof (induction w hz s rule: wait_ready.induct)
  case (1 w hz s)
  let ?t = "next_falling (now s)"
  from "1.prems" have hz: "?t < hz"
    by (subst (asm) wait_ready.simps) (simp split: if_splits)
  show ?case
  proof (cases "s_axis_ready (w ?t)")
    case True
    with "1.prems" hz have "s' = s\<lparr>now := ?t\<rparr>"
      by (subst (asm) wait_ready.simps) (simp add: Let_def)
    with hz show ?thesis by simp
  next
    case False
    with "1.prems" hz have "wait_ready w hz (s\<lparr>now := ?t\<rparr>) = Passed s'"
      by (subst (asm) wait_ready.simps) (simp add: Let_def)
    with "1.IH"[OF hz refl] False show ?thesis by simp
  qed
qed

lemma does_lower_valid:
  "does (entry_ok w packet) [Drive_valid False] (seq [wait_ready w hz, drive (Drive_valid False)])"
  unfolding does_def
proof
  fix s
  show "\<exists>xs. log (final (seq [wait_ready w hz, drive (Drive_valid False)] s)) = log s @ xs \<and>
          list_all (entry_ok w packet) xs \<and>
          (if passed (seq [wait_ready w hz, drive (Drive_valid False)] s)
           then map snd xs = [Drive_valid False] else prefix (map snd xs) [Drive_valid False])"
  proof (cases "wait_ready w hz s")
    case (Failed e s')
    with wait_ready_log[of w hz s] show ?thesis by simp
  next
    case (Passed s')
    with wait_ready_log[of w hz s] wait_ready_Passed[OF Passed] show ?thesis
      by (simp add: drive_def emit_def)
  qed
qed

lemma write_data_Some: "write_data (Some v) = drive (Drive_data v)"
  by (rule ext) (simp add: write_data_def)

lemma send_beat_None: "send_beat w hz False ratio (None, l) s = Failed Type_error s"
  by (simp add: send_beat_def write_data_def)

lemma does_drives:
  "does (entry_ok w packet) (drives has_err vl @ es) (seq (map drive (drives has_err vl) @ fs))"
  if "does (entry_ok w packet) es (seq fs)"
  using that
  by (cases "fst vl"; cases has_err)
     (auto simp: drives_def intro!: does_cons[of _ "[e]" for e, simplified] does_drive)

lemma send_beat_alt:
  assumes "has_err \<or> fst vl \<noteq> None"
  shows "send_beat w hz has_err ratio vl =
     seq (map drive (drives has_err vl)
          @ [RisingEdge hz, wait_ready w hz, drive (Drive_valid False),
             ClockCycles hz False (ratio - 1)])"
proof (rule ext)
  fix s
  have cc: "seq (fs @ [ClockCycles hz False 0]) s = seq fs s" for fs
    by (simp add: seq_append split: outcome.splits)
  have "seq (fs @ [ClockCycles hz False (ratio - 1)]) s
      = seq (fs @ (if ratio \<noteq> 1 then [ClockCycles hz False (ratio - 1)] else [])) s" for fs
    using cc[of fs] by (cases "ratio = 1") simp_all
  from this[of "map drive (drives has_err vl)
      @ [RisingEdge hz, wait_ready w hz, drive (Drive_valid False)]"] assms
  show "send_beat w hz has_err ratio vl s =
     seq (map drive (drives has_err vl)
          @ [RisingEdge hz, wait_ready w hz, drive (Drive_valid False),
             ClockCycles hz False (ratio - 1)]) s"
    by (cases "fst vl") (simp_all add: send_beat_def drives_def write_data_Some)
qed

lemma does_send_tail:
  "does (entry_ok w packet) ([Drive_valid False] @ replicate (ratio - 1) Waited)
     (seq [RisingEdge hz, wait_ready w hz, drive (Drive_valid False),
           ClockCycles hz False (ratio - 1)])"
proof -
  have w: "\<And>t. entry_ok w packet (t, Waited)" by simp
  have "does (entry_ok w packet) ([Drive_valid False] @ replicate (ratio - 1) Waited @ [])
          (seq (seq [wait_ready w hz, drive (Drive_valid False)]
                # [ClockCycles hz False (ratio - 1)]))"
    by (intro does_cons does_lower_valid does_ClockCycles w does_nil)
  then have "does (entry_ok w packet) ([Drive_valid False] @ replicate (ratio - 1) Waited)
          (seq [wait_ready w hz, drive (Drive_valid False), ClockCycles hz False (ratio - 1)])"
    by (simp add: seq_flat)
  with does_RisingEdge
  have "does (entry_ok w packet) ([] @ [Drive_valid False] @ replicate (ratio - 1) Waited)
          (seq [RisingEdge hz, wait_ready w hz, drive (Drive_valid False),
                ClockCycles hz False (ratio - 1)])"
    by (rule does_cons)
  then show ?thesis by simp
qed

lemma does_send_beat:
  "does (entry_ok w packet) (beat_events has_err ratio vl) (send_beat w hz has_err ratio vl)"
proof (cases "has_err \<or> fst vl \<noteq> None")
  case True
  then show ?thesis
    using does_drives[OF does_send_tail] by (simp add: send_beat_alt beat_events_def)
next
  case False
  then have "send_beat w hz has_err ratio vl s = Failed Type_error s" for s
    using send_beat_None[of w hz ratio "snd vl" s] by (cases vl) simp
  then show ?thesis by (simp add: does_def)
qed

lemma send_beat_log:
  assumes "has_err \<or> fst vl \<noteq> None"
  shows "\<exists>xs. log (final (send_beat w hz has_err ratio vl s)) =
          log s @ map (Pair (now s)) (drives has_err vl) @ xs"
proof -
  let ?s1 = "s\<lparr>log := log s @ map (Pair (now s)) (drives has_err vl)\<rparr>"
  let ?tail = "seq [RisingEdge hz, wait_ready w hz, drive (Drive_valid False),
                    ClockCycles hz False (ratio - 1)]"
  have "send_beat w hz has_err ratio vl s = ?tail ?s1"
    by (simp add: send_beat_alt[OF assms] seq_append seq_drives)
  moreover have "log (final (?tail ?s1)) = log ?s1 @ entries_since ?s1 (?tail ?s1)"
    by (rule does_entries(1)[OF does_send_tail[where packet = "[]"]])
  ultimately show ?thesis by simp
qed

lemma does_send_packet:
  "does (entry_ok w p) (concat (map (beat_events has_err ratio) (lookahead packet)))
     (send_packet w hz has_err packet ratio)"
  unfolding send_packet_def by (rule does_map) (rule does_send_beat)

lemma ClockCycles_Passed:
  "ClockCycles hz r k s = Passed s' \<Longrightarrow>
     now s \<le> now s' \<and>
     (\<exists>ws. log s' = log s @ ws \<and> map snd ws = replicate k Waited \<and>
           (\<forall>x \<in> set ws. now s \<le> fst x))"
proof (induction k arbitrary: s)
  case 0
  then show ?case by simp
next
  case (Suc k)
  let ?e = "if r then RisingEdge hz s else FallingEdge hz s"
  from Suc.prems obtain s1 where 1: "?e = Passed s1"
    by (cases ?e) (simp_all split: if_splits)
  then have s1: "now s \<le> now s1" "log s1 = log s"
    by (auto simp: RisingEdge_def FallingEdge_def await_def next_rising_def next_falling_def
        split: if_splits)
  from Suc.prems 1 have "ClockCycles hz r k (emit Waited s1) = Passed s'"
    by (simp split: if_splits)
  from Suc.IH[OF this] obtain ws where ws: "now s1 \<le> now s'"
    "log s' = log s1 @ (now s1, Waited) # ws" "map snd ws = replicate k Waited"
    "\<forall>x \<in> set ws. now s1 \<le> fst x"
    by (auto simp: emit_def)
  with s1 show ?case
    by (intro conjI exI[of _ "(now s1, Waited) # ws"]) auto
qed

lemma ClockCycles_falling_even:
  "ClockCycles hz False k s = Passed s' \<Longrightarrow> even (now s) \<Longrightarrow> even (now s')"
proof (induction k arbitrary: s)
  case 0
  then show ?case by simp
next
  case (Suc k)
  from Suc.prems(1) obtain s1 where 1: "FallingEdge hz s = Passed s1"
    by (cases "FallingEdge hz s") simp_all
  then have "even (now s1)"
    by (auto simp: FallingEdge_def await_def next_falling_def split: if_splits)
  moreover from Suc.prems(1) 1 have "ClockCycles hz False k (emit Waited s1) = Passed s'"
    by simp
  ultimately show ?case using Suc.IH[of "emit Waited s1"] by (simp add: emit_def)
qed

lemma send_beat_Passed:
  assumes "send_beat w hz has_err ratio vl s = Passed s'"
  shows "\<exists>t ws. log s' = log s @ map (Pair (now s)) (drives has_err vl)
                            @ [(t, Drive_valid False)] @ ws \<and>
           map snd ws = replicate (ratio - 1) Waited \<and>
           next_rising (now s) < t \<and> even t \<and> s_axis_ready (w t) \<and>
           (\<forall>u. even u \<and> next_rising (now s) < u \<and> u < t \<longrightarrow> \<not> s_axis_ready (w u)) \<and>
           t \<le> now s' \<and> t < hz \<and> even (now s') \<and> (\<forall>x \<in> set ws. t \<le> fst x) \<and>
           (has_err \<or> fst vl \<noteq> None)"
proof -
  have wr: "has_err \<or> fst vl \<noteq> None"
  proof (rule ccontr)
    assume "\<not> (has_err \<or> fst vl \<noteq> None)"
    then have "send_beat w hz has_err ratio vl s = Failed Type_error s"
      using send_beat_None[of w hz ratio "snd vl" s] by (cases vl) simp
    with assms show False by simp
  qed
  let ?s1 = "s\<lparr>log := log s @ map (Pair (now s)) (drives has_err vl)\<rparr>"
  from assms have 1: "seq [RisingEdge hz, wait_ready w hz, drive (Drive_valid False),
             ClockCycles hz False (ratio - 1)] ?s1 = Passed s'"
    by (simp add: send_beat_alt[OF wr] seq_append seq_drives)
  then obtain s2 where 2: "RisingEdge hz ?s1 = Passed s2"
    by (cases "RisingEdge hz ?s1") simp_all
  then have s2: "s2 = ?s1\<lparr>now := next_rising (now s)\<rparr>"
    by (auto simp: RisingEdge_def await_def split: if_splits)
  from 1 2 obtain s3 where 3: "wait_ready w hz s2 = Passed s3"
    by (cases "wait_ready w hz s2") simp_all
  from wait_ready_log[of w hz s2] 3 have l3: "log s3 = log s2" by simp
  note f3 = wait_ready_Passed[OF 3] wait_ready_below[OF 3]
  let ?s4 = "emit (Drive_valid False) s3"
  from 1 2 3 have 4: "ClockCycles hz False (ratio - 1) ?s4 = Passed s'"
    by (simp add: drive_def split: outcome.splits)
  from ClockCycles_Passed[OF 4] obtain ws where 5: "now s3 \<le> now s'"
    "log s' = log ?s4 @ ws" "map snd ws = replicate (ratio - 1) Waited"
    "\<forall>x \<in> set ws. now s3 \<le> fst x"
    by (auto simp: emit_def)
  from f3 have "even (now ?s4)" by (simp add: emit_def)
  from ClockCycles_falling_even[OF 4 this] have ev: "even (now s')" .
  show ?thesis
    using f3 5 l3 s2 wr ev
    by (intro exI[of _ "now s3"] exI[of _ ws]) (simp add: emit_def)
qed

section \<open>Runs against a design that cooperates\<close>

lemma sample_0: "sample t 0 = t"
  by (simp add: sample_def)

lemma sample_shift: "sample (next_rising t) j = sample t (Suc j)"
  by (cases j) (auto simp: sample_def next_rising_def)

lemma sample_odd: "0 < k \<Longrightarrow> odd (sample t k)"
  by (simp add: sample_def next_rising_def)

lemma sample_ge: "t \<le> sample t k"
  by (simp add: sample_def next_rising_def)

lemma sample_le: "sample t j \<le> t + 2 * j"
  by (cases j) (simp_all add: sample_def next_rising_def)

lemma sample_pos: "(sample t0 j - t0 + (if even t0 then 1 else 0)) div 2 = j"
  by (cases j) (simp_all add: sample_def next_rising_def)

lemma recv_beat_pass:
  assumes "m_axis_valid (w (now s))" "m_axis_ready (w (now s))"
    "m_axis_data (w (now s)) = v" "m_axis_last (w (now s)) = (int i = int n - 1)"
    "next_rising (now s) < hz"
  shows "recv_beat w hz n (i, v) s =
           Passed \<lparr>now = next_rising (now s), log = log s @ [(now s, Beat i)]\<rparr>"
  using assms
  by (simp add: recv_beat_def handshake_ready check_beat_def emit_def RisingEdge_def await_def)

lemma recv_beats_pass:
  assumes "\<forall>j<length ivs. m_axis_valid (w (sample (now s) j)) \<and>
             m_axis_ready (w (sample (now s) j)) \<and>
             m_axis_data (w (sample (now s) j)) = snd (ivs ! j) \<and>
             m_axis_last (w (sample (now s) j)) = (int (fst (ivs ! j)) = int n - 1)"
    and "sample (now s) (length ivs) < hz"
  shows "seq (map (recv_beat w hz n) ivs) s =
           Passed \<lparr>now = sample (now s) (length ivs),
                   log = log s @ map (\<lambda>j. (sample (now s) j, Beat (fst (ivs ! j))))
                                    [0..<length ivs]\<rparr>"
  using assms
proof (induction ivs arbitrary: s)
  case Nil
  then show ?case by (simp add: sample_0)
next
  case (Cons iv ivs)
  obtain i v where iv: "iv = (i, v)" by (cases iv)
  let ?s1 = "\<lparr>now = next_rising (now s), log = log s @ [(now s, Beat i)]\<rparr>"
  from Cons.prems(1) have h0: "m_axis_valid (w (now s))" "m_axis_ready (w (now s))"
    "m_axis_data (w (now s)) = v" "m_axis_last (w (now s)) = (int i = int n - 1)"
    by (auto simp: iv sample_0 dest: spec[of _ 0])
  have le: "sample (now s) (Suc 0) \<le> sample (now s) (Suc (length ivs))"
    by (simp add: sample_def)
  with Cons.prems(2) have lt: "next_rising (now s) < hz"
    by (simp add: sample_def)
  have step: "recv_beat w hz n iv s = Passed ?s1"
    unfolding iv using h0 lt by (rule recv_beat_pass)
  have p1: "\<forall>j<length ivs. m_axis_valid (w (sample (now ?s1) j)) \<and>
             m_axis_ready (w (sample (now ?s1) j)) \<and>
             m_axis_data (w (sample (now ?s1) j)) = snd (ivs ! j) \<and>
             m_axis_last (w (sample (now ?s1) j)) = (int (fst (ivs ! j)) = int n - 1)"
  proof (intro allI impI)
    fix j assume "j < length ivs"
    then have "Suc j < length (iv # ivs)" by simp
    with Cons.prems(1) show "m_axis_valid (w (sample (now ?s1) j)) \<and>
             m_axis_ready (w (sample (now ?s1) j)) \<and>
             m_axis_data (w (sample (now ?s1) j)) = snd (ivs ! j) \<and>
             m_axis_last (w (sample (now ?s1) j)) = (int (fst (ivs ! j)) = int n - 1)"
      by (auto simp: sample_shift dest!: spec[of _ "Suc j"])
  qed
  have p2: "sample (now ?s1) (length ivs) < hz"
    using Cons.prems(2) by (simp add: sample_shift)
  have m: "map (\<lambda>j. (sample (now s) j, Beat (fst ((iv # ivs) ! j)))) [0..<length (iv # ivs)]
         = (now s, Beat i) #
           map (\<lambda>j. (sample (next_rising (now s)) j, Beat (fst (ivs ! j)))) [0..<length ivs]"
    by (simp add: upt_conv_Cons sample_0 sample_shift iv map_Suc_upt[symmetric] del: upt_Suc)
  show ?case
    using Cons.IH[OF p1 p2] step m by (simp add: sample_shift)
qed

lemma recv_len_pass:
  assumes "now s = t0" "py_take k packet = take m packet" "m \<le> length packet"
    and "\<forall>j<m. entry_ok w packet (sample t0 j, Beat j)"
    and "sample t0 m < hz"
  shows "recv_len w hz packet k s =
           Passed \<lparr>now = sample t0 m, log = log s @ map (\<lambda>j. (sample t0 j, Beat j)) [0..<m]\<rparr>"
proof -
  let ?ivs = "enumerate 0 (take m packet)"
  have len: "length ?ivs = m" using assms(3) by simp
  have "seq (map (recv_beat w hz (length packet)) ?ivs) s =
           Passed \<lparr>now = sample (now s) (length ?ivs),
                   log = log s @ map (\<lambda>j. (sample (now s) j, Beat (fst (?ivs ! j))))
                                    [0..<length ?ivs]\<rparr>"
    using assms(1,3-5) by (intro recv_beats_pass) (simp_all add: nth_enumerate_eq)
  moreover have "map (\<lambda>j. (sample (now s) j, Beat (fst (?ivs ! j)))) [0..<length ?ivs]
      = map (\<lambda>j. (sample t0 j, Beat j)) [0..<m]"
    using assms(1,3) by (simp add: nth_enumerate_eq)
  ultimately show ?thesis
    using assms(1,2,3) by (simp add: recv_len_def)
qed

lemma restart_pass:
  assumes "now s = t" "odd t" "replayable (w (t + 1))" "t + 3 < hz"
  shows "restart w hz s =
           Passed \<lparr>now = t + 3,
                   log = log s @ [(t + 1, Drive_replay True), (t + 3, Drive_replay False)]\<rparr>"
  using assms
  by (simp add: restart_def FallingEdge_def await_def check_replayable_def drive_def emit_def
      next_falling_def)

lemma ClockCycles_3_pass:
  assumes "now s = t" "odd t" "t + 6 < hz"
  shows "ClockCycles hz True 3 s =
           Passed \<lparr>now = t + 6,
                   log = log s @ [(t + 2, Waited), (t + 4, Waited), (t + 6, Waited)]\<rparr>"
  using assms
  by (simp add: numeral_3_eq_3 RisingEdge_def await_def emit_def next_rising_def)

lemma recv_pass_aux:
  fixes packet :: "int list"
  assumes now: "now s = t0"
    and n: "4 \<le> length packet"
    and k: "k1 = min (length packet) 54 - 3" "k2 = min (length packet) 54 - 2"
    and times: "a = sample t0 k1 + 3" "b = sample a k2 + (if length packet \<le> 54 then 9 else 3)"
    and g1: "\<forall>j<k1. entry_ok w packet (sample t0 j, Beat j)"
    and g2: "\<forall>j<k2. entry_ok w packet (sample a j, Beat j)"
    and g3: "\<forall>j<length packet. entry_ok w packet (sample b j, Beat j)"
    and rp: "replayable (w (a - 2))" "replayable (w (b - 2))"
    and hz: "sample b (length packet) < hz"
  shows "recv w hz packet s =
     Passed \<lparr>now = sample b (length packet),
       log = log s @ [(t0, Drive_done False)] @ map (\<lambda>j. (sample t0 j, Beat j)) [0..<k1]
           @ [(a - 2, Drive_replay True), (a, Drive_replay False)]
           @ map (\<lambda>j. (sample a j, Beat j)) [0..<k2]
           @ (if length packet \<le> 54 then [(b - 7, Waited), (b - 5, Waited), (b - 3, Waited)]
              else [])
           @ [(b - 2, Drive_replay True), (b, Drive_replay False), (b, Drive_done True)]
           @ map (\<lambda>j. (sample b j, Beat j)) [0..<length packet]\<rparr>"
proof -
  let ?n = "length packet"
  let ?r = "min (int ?n) (int BUF_SIZE)"
  from n k have k1: "0 < k1" "k1 \<le> ?n" and k2: "0 < k2" "k2 \<le> ?n" by auto
  have r: "0 \<le> ?r - 3" "nat (?r - 3) = k1" "0 \<le> ?r - 2" "nat (?r - 2) = k2"
    using n k unfolding BUF_SIZE_def by linarith+
  have t1: "py_take (?r - 3) packet = take k1 packet"
    by (simp only: py_take_nonneg[OF r(1)] r(2))
  have t2: "py_take (?r - 2) packet = take k2 packet"
    by (simp only: py_take_nonneg[OF r(3)] r(4))
  have t3: "py_take (int ?n) packet = take ?n packet"
    by (simp add: py_take_def)
  let ?e1 = "sample t0 k1" and ?e2 = "sample a k2" and ?e3 = "sample b ?n"
  have o1: "odd ?e1" and o2: "odd ?e2" using k1 k2 by (simp_all add: sample_odd)
  have b1: "a \<le> ?e2" "b \<le> ?e3" by (rule sample_ge)+
  let ?e2' = "b - 3"
  have e2': "?e2' = ?e2 + (if ?n \<le> 54 then 6 else 0)" using times by auto
  have lt: "?e1 < hz" "?e1 + 3 < hz" "?e2 < hz" "?e2' + 3 < hz" "?e2 + 6 < hz \<or> \<not> ?n \<le> 54"
    using times b1 hz by (auto split: if_splits)
  have A: "recv_len w hz packet (?r - 3) s1 =
      Passed \<lparr>now = ?e1, log = log s1 @ map (\<lambda>j. (sample t0 j, Beat j)) [0..<k1]\<rparr>"
    if "now s1 = t0" for s1
    using that t1 k1 g1 lt by (intro recv_len_pass) simp_all
  have R1: "restart w hz s1 =
      Passed \<lparr>now = a, log = log s1 @ [(a - 2, Drive_replay True), (a, Drive_replay False)]\<rparr>"
    if "now s1 = ?e1" for s1
    using restart_pass[of s1 ?e1 w hz] that o1 rp(1) lt times by simp
  have B: "recv_len w hz packet (?r - 2) s1 =
      Passed \<lparr>now = ?e2, log = log s1 @ map (\<lambda>j. (sample a j, Beat j)) [0..<k2]\<rparr>"
    if "now s1 = a" for s1
    using that t2 k2 g2 lt by (intro recv_len_pass) simp_all
  have W: "(if ?n \<le> BUF_SIZE then ClockCycles hz True 3 else Passed) s1 =
      Passed \<lparr>now = ?e2', log = log s1 @
         (if ?n \<le> 54 then [(b - 7, Waited), (b - 5, Waited), (b - 3, Waited)] else [])\<rparr>"
    if "now s1 = ?e2" for s1
  proof (cases "?n \<le> 54")
    case True
    with ClockCycles_3_pass[of s1 ?e2 hz] that o2 lt times show ?thesis
      by (simp add: BUF_SIZE_def)
  next
    case False
    with that times show ?thesis by (cases s1) (simp add: BUF_SIZE_def)
  qed
  have R2: "restart w hz s1 =
      Passed \<lparr>now = b, log = log s1 @ [(b - 2, Drive_replay True), (b, Drive_replay False)]\<rparr>"
    if "now s1 = ?e2'" for s1
  proof -
    have "odd ?e2'" using o2 e2' by simp
    moreover have "replayable (w (?e2' + 1))" "?e2' + 3 = b" "?e2' + 1 = b - 2"
      using rp(2) times by (auto split: if_splits)
    ultimately show ?thesis
      using restart_pass[of s1 ?e2' w hz] that lt by simp
  qed
  have C: "recv_len w hz packet (int ?n) s1 =
      Passed \<lparr>now = ?e3, log = log s1 @ map (\<lambda>j. (sample b j, Beat j)) [0..<?n]\<rparr>"
    if "now s1 = b" for s1
    using that t3 g3 hz by (intro recv_len_pass) simp_all
  show ?thesis
    by (simp add: recv_def Let_def drive_def emit_def now A R1 B W R2 C)
qed

lemma recv_pass:
  fixes packet :: "int list"
  assumes "now s = t0" "4 \<le> length packet"
    and "a = sample t0 (min (length packet) 54 - 3) + 3"
    and "b = sample a (min (length packet) 54 - 2) + (if length packet \<le> 54 then 9 else 3)"
    and "\<forall>j<min (length packet) 54 - 3. entry_ok w packet (sample t0 j, Beat j)"
    and "\<forall>j<min (length packet) 54 - 2. entry_ok w packet (sample a j, Beat j)"
    and "\<forall>j<length packet. entry_ok w packet (sample b j, Beat j)"
    and "replayable (w (a - 2))" "replayable (w (b - 2))"
    and "sample b (length packet) < hz"
  shows "recv w hz packet s =
     Passed \<lparr>now = sample b (length packet), log = log s @ pass_log t0 a b (length packet)\<rparr>"
  using recv_pass_aux[OF assms(1,2) refl refl assms(3-)] by (simp add: pass_log_def)

lemma packets_nth:
  "packets ! 0 = map int [0..<54]" "packets ! Suc 0 = map int [64..<128]"
  "packets ! 2 = map int [128..<512]"
  by (simp_all add: packets_def)

lemma packets_length:
  "length (packets ! 0) = 54" "length (packets ! Suc 0) = 64" "length (packets ! 2) = 384"
  by (simp_all add: packets_nth)

lemma packets_list: "packets = [packets ! 0, packets ! 1, packets ! 2]"
  by (simp add: packets_def)

lemma bench_wave_replayable: "replayable (bench_wave phases rp t) = rp t"
  by (simp add: bench_wave_def Let_def)

lemma bench_wave_beat:
  assumes "phase_at phases (sample t0 j) = (t0, packet)" "j < length packet"
  shows "entry_ok (bench_wave phases rp) packet (sample t0 j, Beat j)"
  using assms sample_pos[of t0 j] by (auto simp: bench_wave_def Let_def)

lemma test_phase_at:
  "t < 104 \<Longrightarrow> phase_at test_phases t = (0, packets ! 0)"
  "104 \<le> t \<Longrightarrow> t < 216 \<Longrightarrow> phase_at test_phases t = (104, packets ! 0)"
  "216 \<le> t \<Longrightarrow> t < 323 \<Longrightarrow> phase_at test_phases t = (216, packets ! 0)"
  "323 \<le> t \<Longrightarrow> t < 428 \<Longrightarrow> phase_at test_phases t = (323, packets ! 1)"
  "428 \<le> t \<Longrightarrow> t < 534 \<Longrightarrow> phase_at test_phases t = (428, packets ! 1)"
  "534 \<le> t \<Longrightarrow> t < 661 \<Longrightarrow> phase_at test_phases t = (534, packets ! 1)"
  "661 \<le> t \<Longrightarrow> t < 766 \<Longrightarrow> phase_at test_phases t = (661, packets ! 2)"
  "766 \<le> t \<Longrightarrow> t < 872 \<Longrightarrow> phase_at test_phases t = (766, packets ! 2)"
  "872 \<le> t \<Longrightarrow> phase_at test_phases t = (872, packets ! 2)"
  by (simp_all add: test_phases_def)

lemma test_wave_beats:
  assumes "j < k" "k \<le> length (packets ! p)" "t0 + 2 * k \<le> t1 + 1"
    and "\<And>t. t0 \<le> t \<Longrightarrow> t < t1 \<Longrightarrow> phase_at test_phases t = (t0, packets ! p)"
  shows "entry_ok (bench_wave test_phases rp) (packets ! p) (sample t0 j, Beat j)"
proof (rule bench_wave_beat)
  from assms(1,3) sample_le[of t0 j] have "sample t0 j < t1" by linarith
  with sample_ge[of t0 j] show "phase_at test_phases (sample t0 j) = (t0, packets ! p)"
    by (rule assms(4))
  from assms(1,2) show "j < length (packets ! p)" by simp
qed

lemma test_wave_0:
  "\<forall>j<51. entry_ok (bench_wave test_phases rp) (packets ! 0) (sample 0 j, Beat j)"
  "\<forall>j<52. entry_ok (bench_wave test_phases rp) (packets ! 0) (sample 104 j, Beat j)"
  "\<forall>j<54. entry_ok (bench_wave test_phases rp) (packets ! 0) (sample 216 j, Beat j)"
proof -
  show "\<forall>j<51. entry_ok (bench_wave test_phases rp) (packets ! 0) (sample 0 j, Beat j)"
    by (intro allI impI test_wave_beats[where k = 51 and ?t1.0 = 104])
       (simp_all add: packets_length test_phase_at(1))
  show "\<forall>j<52. entry_ok (bench_wave test_phases rp) (packets ! 0) (sample 104 j, Beat j)"
    by (intro allI impI test_wave_beats[where k = 52 and ?t1.0 = 216])
       (simp_all add: packets_length test_phase_at(2))
  show "\<forall>j<54. entry_ok (bench_wave test_phases rp) (packets ! 0) (sample 216 j, Beat j)"
    by (intro allI impI test_wave_beats[where k = 54 and ?t1.0 = 323])
       (simp_all add: packets_length test_phase_at(3))
qed

lemma test_wave_1:
  "\<forall>j<51. entry_ok (bench_wave test_phases rp) (packets ! 1) (sample 323 j, Beat j)"
  "\<forall>j<52. entry_ok (bench_wave test_phases rp) (packets ! 1) (sample 428 j, Beat j)"
  "\<forall>j<64. entry_ok (bench_wave test_phases rp) (packets ! 1) (sample 534 j, Beat j)"
proof -
  show "\<forall>j<51. entry_ok (bench_wave test_phases rp) (packets ! 1) (sample 323 j, Beat j)"
    by (intro allI impI test_wave_beats[where k = 51 and ?t1.0 = 428])
       (simp_all add: packets_length test_phase_at(4))
  show "\<forall>j<52. entry_ok (bench_wave test_phases rp) (packets ! 1) (sample 428 j, Beat j)"
    by (intro allI impI test_wave_beats[where k = 52 and ?t1.0 = 534])
       (simp_all add: packets_length test_phase_at(5))
  show "\<forall>j<64. entry_ok (bench_wave test_phases rp) (packets ! 1) (sample 534 j, Beat j)"
    by (intro allI impI test_wave_beats[where k = 64 and ?t1.0 = 661])
       (simp_all add: packets_length test_phase_at(6))
qed

lemma test_wave_2:
  "\<forall>j<51. entry_ok (bench_wave test_phases rp) (packets ! 2) (sample 661 j, Beat j)"
  "\<forall>j<52. entry_ok (bench_wave test_phases rp) (packets ! 2) (sample 766 j, Beat j)"
  "\<forall>j<384. entry_ok (bench_wave test_phases rp) (packets ! 2) (sample 872 j, Beat j)"
proof -
  show "\<forall>j<51. entry_ok (bench_wave test_phases rp) (packets ! 2) (sample 661 j, Beat j)"
    by (intro allI impI test_wave_beats[where k = 51 and ?t1.0 = 766])
       (simp_all add: packets_length test_phase_at(7))
  show "\<forall>j<52. entry_ok (bench_wave test_phases rp) (packets ! 2) (sample 766 j, Beat j)"
    by (intro allI impI test_wave_beats[where k = 52 and ?t1.0 = 872])
       (simp_all add: packets_length test_phase_at(8))
  show "\<forall>j<384. entry_ok (bench_wave test_phases rp) (packets ! 2) (sample 872 j, Beat j)"
    by (intro allI impI test_wave_beats[where k = 384 and ?t1.0 = 1642])
       (simp_all add: packets_length test_phase_at(9))
qed

lemma sample_numeral:
  "sample 0 51 = 101" "sample 104 52 = 207" "sample 216 54 = 323"
  "sample 323 51 = 425" "sample 428 52 = 531" "sample 534 64 = 661"
  "sample 661 51 = 763" "sample 766 52 = 869" "sample 872 384 = 1639"
  by (simp_all add: sample_def next_rising_def)

lemma recv_pass_0:
  assumes "now s = 0" "rp 102" "rp 214" "323 < hz"
  shows "recv (bench_wave test_phases rp) hz (packets ! 0) s =
           Passed \<lparr>now = 323, log = log s @ pass_log 0 104 216 54\<rparr>"
  using recv_pass[of s 0 "packets ! 0" 104 216 "bench_wave test_phases rp" hz]
    assms test_wave_0[of rp]
  by (simp add: packets_length bench_wave_replayable sample_numeral)

lemma recv_pass_1:
  assumes "now s = 323" "rp 426" "rp 532" "661 < hz"
  shows "recv (bench_wave test_phases rp) hz (packets ! Suc 0) s =
           Passed \<lparr>now = 661, log = log s @ pass_log 323 428 534 64\<rparr>"
  using recv_pass[of s 323 "packets ! 1" 428 534 "bench_wave test_phases rp" hz]
    assms test_wave_1[of rp]
  by (simp add: packets_length bench_wave_replayable sample_numeral)

lemma recv_pass_2:
  assumes "now s = 661" "rp 764" "rp 870" "1639 < hz"
  shows "recv (bench_wave test_phases rp) hz (packets ! 2) s =
           Passed \<lparr>now = 1639, log = log s @ pass_log 661 766 872 384\<rparr>"
  using recv_pass[of s 661 "packets ! 2" 766 872 "bench_wave test_phases rp" hz]
    assms test_wave_2[of rp]
  by (simp add: packets_length bench_wave_replayable sample_numeral)

lemma test_replay_pass:
  assumes "rp 102" "rp 214" "rp 426" "rp 532" "rp 764" "rp 870"
  shows "test_replay (bench_wave test_phases rp) 1640 =
           Passed \<lparr>now = 1639,
             log = log start @ pass_log 0 104 216 54 @ pass_log 323 428 534 64
                   @ pass_log 661 766 872 384\<rparr>"
proof -
  have "test_replay (bench_wave test_phases rp) 1640 =
      seq [recv (bench_wave test_phases rp) 1640 (packets ! 0),
           recv (bench_wave test_phases rp) 1640 (packets ! 1),
           recv (bench_wave test_phases rp) 1640 (packets ! 2)] start"
    unfolding test_replay_def by (subst packets_list) simp
  also have "\<dots> = Passed \<lparr>now = 1639,
             log = log start @ pass_log 0 104 216 54 @ pass_log 323 428 534 64
                   @ pass_log 661 766 872 384\<rparr>"
    using assms by (simp add: recv_pass_0 recv_pass_1 recv_pass_2 start_def)
  finally show ?thesis .
qed

section \<open>Particular runs\<close>

lemma does_recv_all:
  "does (\<lambda>x. snd x = Drive_replay True \<longrightarrow> replayable (w (fst x)))
     (concat (map recv_script ps)) (seq (map (recv w hz) ps))"
proof (rule does_map)
  fix packet :: "int list"
  show "does (\<lambda>x. snd x = Drive_replay True \<longrightarrow> replayable (w (fst x)))
          (recv_script packet) (recv w hz packet)"
  proof (rule does_weaken[OF does_recv])
    fix x :: "nat \<times> event"
    assume "entry_ok w packet x"
    then show "snd x = Drive_replay True \<longrightarrow> replayable (w (fst x))"
      by (cases x) auto
  qed
qed

lemma restart_Passed:
  assumes "restart w hz s = Passed s'"
  shows "replayable (w (next_falling (now s)))"
    and "log s' = log s @ [(next_falling (now s), Drive_replay True),
                           (next_falling (now s) + 2, Drive_replay False)]"
  using assms
  by (auto simp: restart_def FallingEdge_def await_def check_replayable_def drive_def emit_def
      next_falling_def split: if_splits)

lemma restart_not_replayable:
  assumes "next_falling (now s) < hz" "\<not> replayable (w (next_falling (now s)))"
  shows "restart w hz s = Failed Assert_replayable (s\<lparr>now := next_falling (now s)\<rparr>)"
  using assms
  by (simp add: restart_def FallingEdge_def await_def check_replayable_def)

lemma coop_replayable: "replayable (coop_wave t)"
  by (simp add: coop_wave_def bench_wave_replayable)

lemma dip_replayable: "replayable (dip_wave t) = (t = 102 \<or> t = 214)"
  by (simp add: dip_wave_def bench_wave_replayable)

lemma recv_coop_0:
  "recv coop_wave 324 (packets ! 0) \<lparr>now = 0, log = []\<rparr> =
     Passed \<lparr>now = 323, log = pass_log 0 104 216 54\<rparr>"
  using recv_pass_0[of "\<lparr>now = 0, log = []\<rparr>" "\<lambda>t. True" 324]
  by (simp add: coop_wave_def)

lemma recv_dip_0:
  "recv dip_wave 324 (packets ! 0) \<lparr>now = 0, log = []\<rparr> =
     Passed \<lparr>now = 323, log = pass_log 0 104 216 54\<rparr>"
  using recv_pass_0[of "\<lparr>now = 0, log = []\<rparr>" "\<lambda>t. t = 102 \<or> t = 214" 324]
  by (simp add: dip_wave_def)

lemma recv_coop_2:
  "recv coop_wave 1640 (packets ! 2) \<lparr>now = 661, log = []\<rparr> =
     Passed \<lparr>now = 1639, log = pass_log 661 766 872 384\<rparr>"
  using recv_pass_2[of "\<lparr>now = 661, log = []\<rparr>" "\<lambda>t. True" 1640]
  by (simp add: coop_wave_def)

lemma test_replay_coop:
  "test_replay coop_wave 1640 =
     Passed \<lparr>now = 1639,
       log = log start @ pass_log 0 104 216 54 @ pass_log 323 428 534 64
             @ pass_log 661 766 872 384\<rparr>"
  unfolding coop_wave_def by (rule test_replay_pass) simp_all

lemma recv_script_0: "recv_script (packets ! 0) = choreography 51 52 3 54"
  by (simp add: recv_script_def packets_length BUF_SIZE_def py_take_def)

lemma recv_script_2: "recv_script (packets ! 2) = choreography 51 52 0 384"
  by (simp add: recv_script_def packets_length BUF_SIZE_def py_take_def)

lemma packets_0_nth: "i < 54 \<Longrightarrow> packets ! 0 ! i = int i"
  by (simp add: packets_nth del: upt_rec_numeral)

lemma packets_2_nth: "i < 384 \<Longrightarrow> packets ! 2 ! i = int (128 + i)"
  by (simp add: packets_nth del: upt_rec_numeral)


lemma driven_done_append: "driven_done (xs @ ys) = driven_done xs @ driven_done ys"
  by (induction xs rule: driven_done.induct) simp_all

lemma driven_done_beats: "driven_done (beats k) = []"
  unfolding beats_def by (induction k) (simp_all add: driven_done_append)

lemma driven_done_Waited: "driven_done (replicate k Waited) = []"
  by (induction k) simp_all

lemma driven_done_prefix: "prefix xs ys \<Longrightarrow> prefix (driven_done xs) (driven_done ys)"
  by (auto simp: prefix_def driven_done_append)

lemma driven_done_choreography: "driven_done (choreography a b k n) = [False, True]"
  by (simp add: choreography_def driven_done_append driven_done_beats driven_done_Waited)

lemma driven_done_recv_script: "driven_done (recv_script packet) = [False, True]"
  by (simp add: recv_script_def Let_def driven_done_choreography)

lemma Drive_replay_beats: "Drive_replay b \<notin> set (beats k)"
  by (auto simp: beats_def)

lemma driven_done_scripts:
  "driven_done (concat (map recv_script ps)) = concat (map (\<lambda>p. [False, True]) ps)"
  by (induction ps) (simp_all add: driven_done_append driven_done_recv_script)



lemma send_packet_ingress:
  "send_packet ingress_wave 40 True [Some 5, None] 4 \<lparr>now = 0, log = []\<rparr> =
     Passed \<lparr>now = 18,
       log = [(0, Drive_data 5), (0, Drive_err False), (0, Drive_valid True),
              (0, Drive_last False), (4, Drive_valid False),
              (6, Waited), (8, Waited), (10, Waited),
              (10, Drive_data 0), (10, Drive_err True), (10, Drive_valid True),
              (10, Drive_last True), (12, Drive_valid False),
              (14, Waited), (16, Waited), (18, Waited)]\<rparr>"
  by code_simp


lemma send_packet_entries:
  "log (final (send_packet w hz has_err packet ratio s)) =
     log s @ entries_since s (send_packet w hz has_err packet ratio s)"
  "list_all (entry_ok w []) (entries_since s (send_packet w hz has_err packet ratio s))"
  "prefix (map snd (entries_since s (send_packet w hz has_err packet ratio s)))
     (concat (map (beat_events has_err ratio) (lookahead packet)))"
  "passed (send_packet w hz has_err packet ratio s) \<Longrightarrow>
     map snd (entries_since s (send_packet w hz has_err packet ratio s)) =
       concat (map (beat_events has_err ratio) (lookahead packet))"
  using does_entries[OF does_send_packet[of w "[]" has_err ratio packet hz], of s] by blast+


lemma lookahead_fst: "map fst (lookahead xs) = xs"
  by (induction xs rule: lookahead.induct) simp_all

lemma lookahead_snd:
  "xs \<noteq> [] \<Longrightarrow> map snd (lookahead xs) = replicate (length xs - 1) False @ [True]"
  by (induction xs rule: lookahead.induct) simp_all

lemma driven_last_append: "driven_last (xs @ ys) = driven_last xs @ driven_last ys"
  by (induction xs rule: driven_last.induct) simp_all

lemma driven_data_append: "driven_data (xs @ ys) = driven_data xs @ driven_data ys"
  by (induction xs rule: driven_data.induct) simp_all

lemma driven_err_append: "driven_err (xs @ ys) = driven_err xs @ driven_err ys"
  by (induction xs rule: driven_err.induct) simp_all

lemma driven_Waited:
  "driven_last (replicate k Waited) = []" "driven_data (replicate k Waited) = []"
  "driven_err (replicate k Waited) = []"
  by (induction k) simp_all

lemma driven_last_prefix: "prefix xs ys \<Longrightarrow> prefix (driven_last xs) (driven_last ys)"
  by (auto simp: prefix_def driven_last_append)

lemma driven_beat_events:
  "driven_last (beat_events has_err ratio vl) = [snd vl]"
  "driven_data (beat_events True ratio vl) = [case fst vl of None \<Rightarrow> 0 | Some v \<Rightarrow> v]"
  "driven_err (beat_events True ratio vl) = [fst vl = None]"
  "driven_data (beat_events False ratio vl) = (case fst vl of None \<Rightarrow> [] | Some v \<Rightarrow> [v])"
  "driven_err (beat_events False ratio vl) = []"
  by (cases "fst vl"; cases has_err;
      simp add: beat_events_def drives_def driven_last_append driven_data_append
        driven_err_append driven_Waited)+

lemma driven_last_beats:
  "driven_last (concat (map (beat_events has_err ratio) vls)) = map snd vls"
  by (induction vls) (simp_all add: driven_last_append driven_beat_events)

lemma driven_data_beats:
  "driven_data (concat (map (beat_events True ratio) vls)) =
     map (\<lambda>x. case x of None \<Rightarrow> 0 | Some v \<Rightarrow> v) (map fst vls)"
  "driven_err (concat (map (beat_events True ratio) vls)) = map (\<lambda>x. x = None) (map fst vls)"
  "driven_err (concat (map (beat_events False ratio) vls)) = []"
  by (induction vls) (simp_all add: driven_data_append driven_err_append driven_beat_events)

lemma driven_data_plain:
  "None \<notin> set (map fst vls) \<Longrightarrow>
     map Some (driven_data (concat (map (beat_events False ratio) vls))) = map fst vls"
  by (induction vls) (auto simp: driven_data_append driven_beat_events split: option.splits)

lemma send_beat_entries:
  assumes "has_err \<or> fst vl \<noteq> None"
  shows "\<exists>rest. entries_since s (send_beat w hz has_err ratio vl s) =
            map (Pair (now s)) (drives has_err vl) @ rest"
  using send_beat_log[OF assms, of w hz ratio s] by (auto simp: entries_since_def)

section \<open>The beats of the egress, as the receiver meets them\<close>

lemma next_rising_least: "odd t \<Longrightarrow> t0 < t \<Longrightarrow> next_rising t0 \<le> t"
  by (auto simp: next_rising_def elim!: evenE oddE)

lemma next_rising_gt: "t < next_rising t"
  by (simp add: next_rising_def)

lemma next_rising_odd: "odd (next_rising t)"
  by (simp add: next_rising_def)

lemma looks_at_next: "looks_at t0 u \<Longrightarrow> u \<noteq> t0 \<Longrightarrow> looks_at (next_rising t0) u"
  using next_rising_least[of u t0] by (auto simp: looks_at_def)

lemma looks_at_prev: "looks_at (next_rising t0) u \<Longrightarrow> looks_at t0 u"
  using next_rising_gt[of t0] next_rising_odd[of t0] by (auto simp: looks_at_def)

lemma first_handshake_ge: "first_handshake w t0 t \<Longrightarrow> t0 \<le> t"
  by (auto simp: first_handshake_def looks_at_def)

lemma first_handshake_here: "handshake_at w t0 \<Longrightarrow> first_handshake w t0 t \<longleftrightarrow> t = t0"
  by (auto simp: first_handshake_def looks_at_def)

lemma first_handshake_step:
  assumes "\<not> handshake_at w t0"
  shows "first_handshake w t0 t \<longleftrightarrow> first_handshake w (next_rising t0) t"
proof
  assume f: "first_handshake w t0 t"
  with assms have ne: "t \<noteq> t0" by (auto simp: first_handshake_def)
  with f have l: "looks_at (next_rising t0) t"
    by (simp add: first_handshake_def looks_at_next)
  have "\<not> handshake_at w u" if "u \<in> set [next_rising t0..<t]" "looks_at (next_rising t0) u" for u
  proof -
    from that(1) next_rising_gt[of t0] have "u \<in> set [t0..<t]" by simp
    with f looks_at_prev[OF that(2)] show ?thesis by (simp add: first_handshake_def)
  qed
  with f l show "first_handshake w (next_rising t0) t" by (simp add: first_handshake_def)
next
  assume f: "first_handshake w (next_rising t0) t"
  then have l: "looks_at t0 t" by (simp add: first_handshake_def looks_at_prev)
  have "\<not> handshake_at w u" if "u \<in> set [t0..<t]" "looks_at t0 u" for u
  proof (cases "u = t0")
    case True
    with assms show ?thesis by simp
  next
    case False
    from looks_at_next[OF that(2) False] have n: "looks_at (next_rising t0) u" .
    then have "next_rising t0 \<le> u" by (auto simp: looks_at_def)
    with that(1) have "u \<in> set [next_rising t0..<t]" by simp
    with f n show ?thesis by (simp add: first_handshake_def)
  qed
  with f l show "first_handshake w t0 t" by (simp add: first_handshake_def)
qed

text \<open>\<^verbatim>\<open>handshake\<close> returns at the first beat of the egress, when that beat comes before the
  simulation ends, and not otherwise.\<close>

lemma handshake_iff:
  "handshake w hz s = Passed s' \<longleftrightarrow>
     (\<exists>t. first_handshake w (now s) t \<and> (t = now s \<or> t < hz) \<and> s' = s\<lparr>now := t\<rparr>)"
proof (induction w hz s rule: handshake.induct)
  case (1 w hz s)
  show ?case
  proof (cases "handshake_at w (now s)")
    case True
    then have "handshake w hz s = Passed s"
      by (subst handshake.simps) (simp add: handshake_at_def)
    with True show ?thesis by (auto simp: first_handshake_here)
  next
    case False
    note step = first_handshake_step[OF False]
    show ?thesis
    proof (cases "next_rising (now s) < hz")
      case True
      let ?s1 = "s\<lparr>now := next_rising (now s)\<rparr>"
      from False True have "handshake w hz s = handshake w hz ?s1"
        by (subst handshake.simps) (auto simp: handshake_at_def)
      moreover from False True
      have "handshake w hz ?s1 = Passed s' \<longleftrightarrow>
          (\<exists>t. first_handshake w (now ?s1) t \<and> (t = now ?s1 \<or> t < hz) \<and> s' = ?s1\<lparr>now := t\<rparr>)"
        by (intro "1.IH") (auto simp: handshake_at_def)
      moreover have "(t = next_rising (now s) \<or> t < hz) \<longleftrightarrow> (t = now s \<or> t < hz)"
        if "first_handshake w (next_rising (now s)) t" for t
        using first_handshake_ge[OF that] next_rising_gt[of "now s"] True by auto
      ultimately show ?thesis
        by (auto simp: step)
    next
      case nr: False
      from False nr have "handshake w hz s = Failed Sim_ended s"
        by (subst handshake.simps) (auto simp: handshake_at_def)
      moreover have "\<not> (t = now s \<or> t < hz)" if "first_handshake w (next_rising (now s)) t" for t
        using first_handshake_ge[OF that] next_rising_gt[of "now s"] nr by auto
      ultimately show ?thesis by (auto simp: step)
    qed
  qed
qed

lemma handshake_first:
  "first_handshake w (now s) t \<Longrightarrow> t = now s \<or> t < hz \<Longrightarrow>
     handshake w hz s = Passed (s\<lparr>now := t\<rparr>)"
  by (subst handshake_iff) blast

lemma recv_beat_Passed:
  assumes "recv_beat w hz n (i, v) s = Passed s'"
  shows "\<exists>t. first_handshake w (now s) t \<and> next_rising t < hz \<and>
           m_axis_data (w t) = v \<and> m_axis_last (w t) = (int i = int n - 1) \<and>
           s' = \<lparr>now = next_rising t, log = log s @ [(t, Beat i)]\<rparr>"
proof -
  from assms obtain s1 where 1: "handshake w hz s = Passed s1"
    by (cases "handshake w hz s") (simp_all add: recv_beat_def)
  then obtain t where t: "first_handshake w (now s) t" "s1 = s\<lparr>now := t\<rparr>"
    by (auto simp: handshake_iff)
  from assms 1 t show ?thesis
    by (intro exI[of _ t])
       (auto simp: recv_beat_def check_beat_def emit_def RisingEdge_def await_def
          split: if_splits)
qed

lemma recv_beat_run:
  assumes "first_handshake w (now s) t" "next_rising t < hz"
    "m_axis_data (w t) = v" "m_axis_last (w t) = (int i = int n - 1)"
  shows "recv_beat w hz n (i, v) s = Passed \<lparr>now = next_rising t, log = log s @ [(t, Beat i)]\<rparr>"
proof -
  from assms(2) next_rising_gt[of t] have "t < hz" by simp
  with assms(1) have "handshake w hz s = Passed (s\<lparr>now := t\<rparr>)"
    by (intro handshake_first) simp_all
  with assms show ?thesis
    by (simp add: recv_beat_def check_beat_def emit_def RisingEdge_def await_def)
qed

lemma recv_beat_mismatch:
  assumes "first_handshake w (now s) t" "t = now s \<or> t < hz"
    "m_axis_data (w t) \<noteq> v \<or> m_axis_last (w t) \<noteq> (int i = int n - 1)"
  shows "recv_beat w hz n (i, v) s =
           Failed (if m_axis_data (w t) \<noteq> v then Assert_data else Assert_last) (s\<lparr>now := t\<rparr>)"
proof -
  from assms(1,2) have "handshake w hz s = Passed (s\<lparr>now := t\<rparr>)"
    by (rule handshake_first)
  with assms(3) show ?thesis
    by (auto simp: recv_beat_def check_beat_def)
qed



lemma after_beats_ge: "handshakes w t0 ts \<Longrightarrow> t0 \<le> after_beats t0 ts"
proof (induction ts arbitrary: t0)
  case Nil
  show ?case by simp
next
  case (Cons t ts)
  from Cons.prems have f: "first_handshake w t0 t" and h: "handshakes w (next_rising t) ts"
    by simp_all
  from first_handshake_ge[OF f] Cons.IH[OF h] next_rising_gt[of t] show ?case by simp
qed

lemma after_beats_snoc: "after_beats t0 (ts @ [t]) = next_rising t"
  by (induction ts arbitrary: t0) simp_all

lemma handshakes_append:
  "handshakes w t0 (ts @ us) \<longleftrightarrow> handshakes w t0 ts \<and> handshakes w (after_beats t0 ts) us"
  by (induction ts arbitrary: t0) simp_all

text \<open>The loop of \<^verbatim>\<open>recv_len\<close>: a run that passes counts its beats at the successive beats
  of the egress, none left out, and every one of them carries what its position
  expects.\<close>

lemma recv_beats_Passed:
  assumes "seq (map (recv_beat w hz n) ivs) s = Passed s'"
  shows "\<exists>ts. length ts = length ivs \<and> handshakes w (now s) ts \<and>
           log s' = log s @ zip ts (map (\<lambda>iv. Beat (fst iv)) ivs) \<and>
           now s' = after_beats (now s) ts \<and>
           (\<forall>j<length ivs. m_axis_data (w (ts ! j)) = snd (ivs ! j) \<and>
              m_axis_last (w (ts ! j)) = (int (fst (ivs ! j)) = int n - 1))"
  using assms
proof (induction ivs arbitrary: s)
  case Nil
  then show ?case by simp
next
  case (Cons iv ivs)
  obtain i v where iv: "iv = (i, v)" by (cases iv)
  from Cons.prems obtain s1 where 1: "recv_beat w hz n (i, v) s = Passed s1"
    and 2: "seq (map (recv_beat w hz n) ivs) s1 = Passed s'"
    by (cases "recv_beat w hz n (i, v) s") (simp_all add: iv)
  from recv_beat_Passed[OF 1] obtain t where t: "first_handshake w (now s) t"
    "m_axis_data (w t) = v" "m_axis_last (w t) = (int i = int n - 1)"
    "s1 = \<lparr>now = next_rising t, log = log s @ [(t, Beat i)]\<rparr>"
    by blast
  from Cons.IH[OF 2] obtain ts where ts: "length ts = length ivs" "handshakes w (now s1) ts"
    "log s' = log s1 @ zip ts (map (\<lambda>iv. Beat (fst iv)) ivs)"
    "now s' = after_beats (now s1) ts"
    "\<forall>j<length ivs. m_axis_data (w (ts ! j)) = snd (ivs ! j) \<and>
              m_axis_last (w (ts ! j)) = (int (fst (ivs ! j)) = int n - 1)"
    by blast
  have "\<forall>j<length (iv # ivs). m_axis_data (w ((t # ts) ! j)) = snd ((iv # ivs) ! j) \<and>
              m_axis_last (w ((t # ts) ! j)) = (int (fst ((iv # ivs) ! j)) = int n - 1)"
  proof (intro allI impI)
    fix j assume "j < length (iv # ivs)"
    then show "m_axis_data (w ((t # ts) ! j)) = snd ((iv # ivs) ! j) \<and>
              m_axis_last (w ((t # ts) ! j)) = (int (fst ((iv # ivs) ! j)) = int n - 1)"
      using t(2,3) ts(5) by (cases j) (simp_all add: iv)
  qed
  with t ts(1-4) show ?case
    by (intro exI[of _ "t # ts"]) (simp add: iv)
qed

lemma recv_beats_run:
  assumes "handshakes w (now s) ts" "length ts = length ivs"
    and "\<forall>j<length ivs. m_axis_data (w (ts ! j)) = snd (ivs ! j) \<and>
           m_axis_last (w (ts ! j)) = (int (fst (ivs ! j)) = int n - 1)"
    and "ts = [] \<or> after_beats (now s) ts < hz"
  shows "seq (map (recv_beat w hz n) ivs) s =
           Passed \<lparr>now = after_beats (now s) ts,
                   log = log s @ zip ts (map (\<lambda>iv. Beat (fst iv)) ivs)\<rparr>"
  using assms
proof (induction ivs arbitrary: s ts)
  case Nil
  then show ?case by simp
next
  case (Cons iv ivs)
  obtain i v where iv: "iv = (i, v)" by (cases iv)
  from Cons.prems(2) obtain t ts' where ts: "ts = t # ts'" "length ts' = length ivs"
    by (cases ts) simp_all
  from Cons.prems(1) ts have f: "first_handshake w (now s) t"
    and h: "handshakes w (next_rising t) ts'" by simp_all
  from Cons.prems(4) ts after_beats_ge[OF h] have lt: "next_rising t < hz" by simp
  from Cons.prems(3) have m0: "m_axis_data (w t) = v" "m_axis_last (w t) = (int i = int n - 1)"
    by (auto simp: ts iv dest: spec[of _ 0])
  let ?s1 = "\<lparr>now = next_rising t, log = log s @ [(t, Beat i)]\<rparr>"
  have 1: "recv_beat w hz n iv s = Passed ?s1"
    unfolding iv using f lt m0 by (rule recv_beat_run)
  have m: "\<forall>j<length ivs. m_axis_data (w (ts' ! j)) = snd (ivs ! j) \<and>
           m_axis_last (w (ts' ! j)) = (int (fst (ivs ! j)) = int n - 1)"
  proof (intro allI impI)
    fix j assume "j < length ivs"
    then have "Suc j < length (iv # ivs)" by simp
    with Cons.prems(3) show "m_axis_data (w (ts' ! j)) = snd (ivs ! j) \<and>
           m_axis_last (w (ts' ! j)) = (int (fst (ivs ! j)) = int n - 1)"
      by (auto simp: ts dest!: spec[of _ "Suc j"])
  qed
  have e: "ts' = [] \<or> after_beats (now ?s1) ts' < hz"
    using Cons.prems(4) ts by simp
  from Cons.IH[of ?s1 ts'] h ts(2) m e
  have "seq (map (recv_beat w hz n) ivs) ?s1 =
      Passed \<lparr>now = after_beats (now ?s1) ts',
              log = log ?s1 @ zip ts' (map (\<lambda>iv. Beat (fst iv)) ivs)\<rparr>"
    by simp
  with 1 show ?case by (simp add: ts iv)
qed

lemma recv_beats_mismatch:
  assumes "handshakes w (now s) (ts @ [t])" "length ts = length ivs"
    and "\<forall>j<length ivs. m_axis_data (w (ts ! j)) = snd (ivs ! j) \<and>
           m_axis_last (w (ts ! j)) = (int (fst (ivs ! j)) = int n - 1)"
    and "t = now s \<or> t < hz"
    and "m_axis_data (w t) \<noteq> v \<or> m_axis_last (w t) \<noteq> (int i = int n - 1)"
  shows "seq (map (recv_beat w hz n) (ivs @ (i, v) # rest)) s =
           Failed (if m_axis_data (w t) \<noteq> v then Assert_data else Assert_last)
             \<lparr>now = t, log = log s @ zip ts (map (\<lambda>iv. Beat (fst iv)) ivs)\<rparr>"
proof -
  from assms(1) have h: "handshakes w (now s) ts"
    and f: "first_handshake w (after_beats (now s) ts) t"
    by (simp_all add: handshakes_append)
  have lt: "ts = [] \<or> after_beats (now s) ts < hz"
  proof (cases "ts = []")
    case False
    then obtain us u where us: "ts = us @ [u]" by (cases ts rule: rev_cases) auto
    from first_handshake_ge[OF f] have "next_rising u \<le> t" by (simp add: us after_beats_snoc)
    moreover from h after_beats_ge[of w "now s" us] next_rising_gt[of u] first_handshake_ge
    have "now s < next_rising u"
      by (fastforce simp: us handshakes_append dest: first_handshake_ge)
    ultimately show ?thesis using assms(4) by (simp add: us after_beats_snoc)
  qed simp
  let ?s1 = "\<lparr>now = after_beats (now s) ts,
             log = log s @ zip ts (map (\<lambda>iv. Beat (fst iv)) ivs)\<rparr>"
  have 1: "seq (map (recv_beat w hz n) ivs) s = Passed ?s1"
    using h assms(2,3) lt by (rule recv_beats_run)
  have t: "t = now ?s1 \<or> t < hz"
  proof (cases "ts = []")
    case True
    with assms(4) show ?thesis by simp
  next
    case False
    with lt first_handshake_ge[OF f] after_beats_ge[OF h] assms(4) show ?thesis by auto
  qed
  from f have "first_handshake w (now ?s1) t" by simp
  from recv_beat_mismatch[OF this t assms(5)] 1 show ?thesis
    by (simp add: seq_append)
qed

lemma enumerate_split:
  "j < length xs \<Longrightarrow>
     enumerate 0 xs = enumerate 0 (take j xs) @ (j, xs ! j) # enumerate (Suc j) (drop (Suc j) xs)"
proof -
  assume j: "j < length xs"
  then have "enumerate 0 xs = enumerate 0 (take j xs @ xs ! j # drop (Suc j) xs)"
    by (simp add: id_take_nth_drop[symmetric])
  also have "\<dots> = enumerate 0 (take j xs) @ (j, xs ! j) # enumerate (Suc j) (drop (Suc j) xs)"
    using j by (simp add: enumerate_append_eq min_def)
  finally show ?thesis .
qed

lemma py_take_nth: "j < length (py_take k packet) \<Longrightarrow> py_take k packet ! j = packet ! j"
  by (auto simp: py_take_def split: if_splits)

lemma py_take_length: "length (py_take k packet) \<le> length packet"
  by (cases "k < 0") (simp_all add: py_take_def)


lemma recv_len_Passed:
  assumes "recv_len w hz packet k s = Passed s'"
  shows "\<exists>ts. length ts = length (py_take k packet) \<and> handshakes w (now s) ts \<and>
           log s' = log s @ zip ts (beats (length ts)) \<and>
           now s' = after_beats (now s) ts \<and>
           (\<forall>j<length ts. m_axis_data (w (ts ! j)) = packet ! j \<and>
              m_axis_last (w (ts ! j)) = (int j = int (length packet) - 1))"
proof -
  let ?ivs = "enumerate 0 (py_take k packet)"
  from assms have "seq (map (recv_beat w hz (length packet)) ?ivs) s = Passed s'"
    by (simp add: recv_len_def)
  from recv_beats_Passed[OF this] obtain ts where ts: "length ts = length ?ivs"
    "handshakes w (now s) ts"
    "log s' = log s @ zip ts (map (\<lambda>iv. Beat (fst iv)) ?ivs)"
    "now s' = after_beats (now s) ts"
    "\<forall>j<length ?ivs. m_axis_data (w (ts ! j)) = snd (?ivs ! j) \<and>
        m_axis_last (w (ts ! j)) = (int (fst (?ivs ! j)) = int (length packet) - 1)"
    by blast
  from ts(1) have len: "length ts = length (py_take k packet)" by simp
  have "\<forall>j<length ts. m_axis_data (w (ts ! j)) = packet ! j \<and>
      m_axis_last (w (ts ! j)) = (int j = int (length packet) - 1)"
    using ts(5) len by (simp add: nth_enumerate_eq py_take_nth)
  with ts(2-4) len show ?thesis
    by (intro exI[of _ ts]) (simp add: map_Beat_enumerate)
qed

text \<open>A beat that does not carry what its position expects ends \<^verbatim>\<open>recv_len\<close> with the
  assertion that fails, at the edge of that beat.\<close>

lemma recv_len_mismatch_at:
  assumes "handshakes w (now s) ts" "length ts = Suc j" "j < length (py_take k packet)"
    and "ts ! j = now s \<or> ts ! j < hz"
    and "\<forall>i<j. m_axis_data (w (ts ! i)) = packet ! i \<and>
           m_axis_last (w (ts ! i)) = (int i = int (length packet) - 1)"
    and "m_axis_data (w (ts ! j)) \<noteq> packet ! j \<or>
         m_axis_last (w (ts ! j)) \<noteq> (int j = int (length packet) - 1)"
  shows "recv_len w hz packet k s =
           Failed (if m_axis_data (w (ts ! j)) \<noteq> packet ! j then Assert_data else Assert_last)
             \<lparr>now = ts ! j, log = log s @ zip (take j ts) (beats j)\<rparr>"
proof -
  let ?P = "py_take k packet"
  let ?ivs = "enumerate 0 (take j ?P)"
  from assms(2) have ts: "ts = take j ts @ [ts ! j]"
    by (metis lessI take_Suc_conv_app_nth take_all order_refl)
  from assms(2,3) have len: "length (take j ts) = length ?ivs" by simp
  have e: "enumerate 0 ?P = ?ivs @ (j, packet ! j) # enumerate (Suc j) (drop (Suc j) ?P)"
    using enumerate_split[OF assms(3)] py_take_nth[OF assms(3)] by simp
  have m: "\<forall>i<length ?ivs. m_axis_data (w (take j ts ! i)) = snd (?ivs ! i) \<and>
      m_axis_last (w (take j ts ! i)) = (int (fst (?ivs ! i)) = int (length packet) - 1)"
  proof (intro allI impI)
    fix i assume "i < length ?ivs"
    with assms(3) have i: "i < j" "i < length ?P" by simp_all
    with assms(5) py_take_nth[OF i(2)]
    show "m_axis_data (w (take j ts ! i)) = snd (?ivs ! i) \<and>
      m_axis_last (w (take j ts ! i)) = (int (fst (?ivs ! i)) = int (length packet) - 1)"
      by (simp add: nth_enumerate_eq)
  qed
  from assms(1) ts have h: "handshakes w (now s) (take j ts @ [ts ! j])" by simp
  have b: "map (\<lambda>iv. Beat (fst iv)) ?ivs = beats j"
    using assms(3) by (simp add: map_Beat_enumerate min_def)
  from recv_beats_mismatch[OF h len m assms(4,6)] show ?thesis
    by (simp add: recv_len_def e b)
qed

lemma restart_now: "restart w hz s = Passed s' \<Longrightarrow> now s' = next_falling (now s) + 2"
  by (auto simp: restart_def FallingEdge_def await_def check_replayable_def drive_def emit_def
      next_falling_def split: if_splits)

text \<open>A reception that passes, step by step: the beats of each of its three passes are the
  successive beats of the egress from the edge where the pass starts, which is the edge
  where replay is lowered for the passes that follow a replay.\<close>

lemma recv_Passed_run:
  assumes "recv w hz packet s = Passed s'"
  shows "\<exists>ts1 tr1 ts2 ws tr2 ts3.
     log s' = log s @ (now s, Drive_done False) # zip ts1 (beats (length ts1))
        @ [(tr1, Drive_replay True), (tr1 + 2, Drive_replay False)]
        @ zip ts2 (beats (length ts2)) @ ws
        @ [(tr2, Drive_replay True), (tr2 + 2, Drive_replay False), (tr2 + 2, Drive_done True)]
        @ zip ts3 (beats (length ts3)) \<and>
     length ts1 = length (py_take (min (int (length packet)) (int BUF_SIZE) - 3) packet) \<and>
     length ts2 = length (py_take (min (int (length packet)) (int BUF_SIZE) - 2) packet) \<and>
     length ts3 = length packet \<and>
     map snd ws = replicate (if length packet \<le> BUF_SIZE then 3 else 0) Waited \<and>
     handshakes w (now s) ts1 \<and> handshakes w (tr1 + 2) ts2 \<and> handshakes w (tr2 + 2) ts3 \<and>
     (\<forall>ts \<in> {ts1, ts2, ts3}. \<forall>j<length ts. m_axis_data (w (ts ! j)) = packet ! j \<and>
        m_axis_last (w (ts ! j)) = (int j = int (length packet) - 1)) \<and>
     replayable (w tr1) \<and> replayable (w tr2) \<and>
     tr1 = next_falling (after_beats (now s) ts1)"
proof -
  let ?r = "min (int (length packet)) (int BUF_SIZE)"
  let ?s0 = "emit (Drive_done False) s"
  let ?wait = "if length packet \<le> BUF_SIZE then ClockCycles hz True 3 else Passed"
  from assms obtain s1 where 1: "recv_len w hz packet (?r - 3) ?s0 = Passed s1"
    by (cases "recv_len w hz packet (?r - 3) ?s0") (simp_all add: recv_def Let_def drive_def)
  with assms obtain s2 where 2: "restart w hz s1 = Passed s2"
    by (cases "restart w hz s1") (simp_all add: recv_def Let_def drive_def)
  with assms 1 obtain s3 where 3: "recv_len w hz packet (?r - 2) s2 = Passed s3"
    by (cases "recv_len w hz packet (?r - 2) s2") (simp_all add: recv_def Let_def drive_def)
  with assms 1 2 obtain s4 where 4: "?wait s3 = Passed s4"
    by (cases "?wait s3") (simp_all add: recv_def Let_def drive_def)
  with assms 1 2 3 obtain s5 where 5: "restart w hz s4 = Passed s5"
    by (cases "restart w hz s4") (simp_all add: recv_def Let_def drive_def)
  let ?s6 = "emit (Drive_done True) s5"
  from assms 1 2 3 4 5 have 6: "recv_len w hz packet (int (length packet)) ?s6 = Passed s'"
    by (cases "recv_len w hz packet (int (length packet)) ?s6")
       (simp_all add: recv_def Let_def drive_def)
  from recv_len_Passed[OF 1] obtain ts1 where ts1:
    "length ts1 = length (py_take (?r - 3) packet)" "handshakes w (now s) ts1"
    "log s1 = log s @ (now s, Drive_done False) # zip ts1 (beats (length ts1))"
    "now s1 = after_beats (now s) ts1"
    "\<forall>j<length ts1. m_axis_data (w (ts1 ! j)) = packet ! j \<and>
        m_axis_last (w (ts1 ! j)) = (int j = int (length packet) - 1)"
    by (auto simp: emit_def)
  let ?tr1 = "next_falling (now s1)"
  note r1 = restart_Passed[OF 2] restart_now[OF 2]
  from recv_len_Passed[OF 3] obtain ts2 where ts2:
    "length ts2 = length (py_take (?r - 2) packet)" "handshakes w (now s2) ts2"
    "log s3 = log s2 @ zip ts2 (beats (length ts2))"
    "now s3 = after_beats (now s2) ts2"
    "\<forall>j<length ts2. m_axis_data (w (ts2 ! j)) = packet ! j \<and>
        m_axis_last (w (ts2 ! j)) = (int j = int (length packet) - 1)"
    by blast
  have "\<exists>ws. log s4 = log s3 @ ws \<and>
      map snd ws = replicate (if length packet \<le> BUF_SIZE then 3 else 0) Waited"
  proof (cases "length packet \<le> BUF_SIZE")
    case True
    with 4 have "ClockCycles hz True 3 s3 = Passed s4" by simp
    from ClockCycles_Passed[OF this] True show ?thesis by auto
  next
    case False
    with 4 show ?thesis by simp
  qed
  then obtain ws where ws: "log s4 = log s3 @ ws"
    "map snd ws = replicate (if length packet \<le> BUF_SIZE then 3 else 0) Waited"
    by blast
  let ?tr2 = "next_falling (now s4)"
  note r2 = restart_Passed[OF 5] restart_now[OF 5]
  from recv_len_Passed[OF 6] obtain ts3 where ts3:
    "length ts3 = length (py_take (int (length packet)) packet)" "handshakes w (now s5) ts3"
    "log s' = log s5 @ (now s5, Drive_done True) # zip ts3 (beats (length ts3))"
    "\<forall>j<length ts3. m_axis_data (w (ts3 ! j)) = packet ! j \<and>
        m_axis_last (w (ts3 ! j)) = (int j = int (length packet) - 1)"
    by (auto simp: emit_def)
  show ?thesis
    using ts1 ts2 ts3 ws r1 r2
    by (intro exI[of _ ts1] exI[of _ ?tr1] exI[of _ ts2] exI[of _ ws] exI[of _ ?tr2]
        exI[of _ ts3]) (simp add: py_take_all)
qed

section \<open>Transfers on the ingress\<close>














text \<open>Without \<^verbatim>\<open>'err'\<close>, \<^verbatim>\<open>send_packet\<close> ends at the first \<^verbatim>\<open>None\<close>.\<close>

lemma send_beats_None:
  "seq (map (send_beat w hz False ratio) (vls @ (None, l) # rest)) s =
     (case seq (map (send_beat w hz False ratio) vls) s of
        Passed s1 \<Rightarrow> Failed Type_error s1
      | Failed e s1 \<Rightarrow> Failed e s1)"
  by (simp add: seq_append send_beat_None split: outcome.splits)

lemma send_beats_no_None:
  "seq (map (send_beat w hz False ratio) vls) s = Passed s' \<Longrightarrow> None \<notin> set (map fst vls)"
proof (induction vls arbitrary: s)
  case Nil
  show ?case by simp
next
  case (Cons vl vls)
  from Cons.prems obtain s1 where 1: "send_beat w hz False ratio vl s = Passed s1"
    and 2: "seq (map (send_beat w hz False ratio) vls) s1 = Passed s'"
    by (cases "send_beat w hz False ratio vl s") simp_all
  from send_beat_Passed[OF 1] have "fst vl \<noteq> None" by blast
  with Cons.IH[OF 2] show ?case by auto
qed

section \<open>The claims\<close>

text \<open>
  Claim C1, as amended. For the packet of 54 elements, \<open>[0..53]\<close>, every run of \<^verbatim>\<open>recv\<close>
  only appends to the log, and what it appends is a prefix of this choreography, all of it
  when the run passes: done lowered, the beats 0 to 50, a replay pulse, the beats 0 to 51,
  three cycles of waiting, a second replay pulse, done raised, the beats 0 to 53. Each
  replay is raised at an edge where replayable reads high, and each beat is counted at an
  edge where valid and ready are high, data is the beat's position and last is high on
  beat 53 only. The bench reads replayable at the two edges where it raises replay and
  nowhere else; it does not look at it during the three cycles of waiting.
\<close>

theorem capacity_packet_choreography:
  "log (final (recv w hz (packets ! 0) s)) =
     log s @ entries_since s (recv w hz (packets ! 0) s) \<and>
   prefix (map snd (entries_since s (recv w hz (packets ! 0) s))) (choreography 51 52 3 54) \<and>
   (passed (recv w hz (packets ! 0) s) \<longrightarrow>
      map snd (entries_since s (recv w hz (packets ! 0) s)) = choreography 51 52 3 54) \<and>
   (\<forall>(t, e) \<in> set (entries_since s (recv w hz (packets ! 0) s)).
      (e = Drive_replay True \<longrightarrow> replayable (w t)) \<and>
      (\<forall>i. e = Beat i \<longrightarrow>
         m_axis_valid (w t) \<and> m_axis_ready (w t) \<and>
         m_axis_data (w t) = int i \<and> m_axis_last (w t) = (i = 53)))"
proof (intro conjI)
  let ?xs = "entries_since s (recv w hz (packets ! 0) s)"
  show "log (final (recv w hz (packets ! 0) s)) = log s @ ?xs"
    by (rule recv_entries(1))
  show "prefix (map snd ?xs) (choreography 51 52 3 54)"
    using recv_entries(3)[where w = w and hz = hz and s = s and packet = "packets ! 0"]
    by (simp add: recv_script_0)
  show "passed (recv w hz (packets ! 0) s) \<longrightarrow> map snd ?xs = choreography 51 52 3 54"
    using recv_entries(4)[where w = w and hz = hz and s = s and packet = "packets ! 0"]
    by (simp add: recv_script_0)
  have ok: "list_all (entry_ok w (packets ! 0)) ?xs"
    by (rule recv_entries(2))
  show "\<forall>(t, e) \<in> set ?xs.
      (e = Drive_replay True \<longrightarrow> replayable (w t)) \<and>
      (\<forall>i. e = Beat i \<longrightarrow>
         m_axis_valid (w t) \<and> m_axis_ready (w t) \<and>
         m_axis_data (w t) = int i \<and> m_axis_last (w t) = (i = 53))"
  proof (clarify, intro conjI allI impI)
    fix t e assume m: "(t, e) \<in> set ?xs"
    with ok have e: "entry_ok w (packets ! 0) (t, e)" by (simp add: list_all_iff)
    { assume "e = Drive_replay True"
      with e show "replayable (w t)" by simp }
    { fix i assume "e = Beat i"
      with e have i: "i < 54" "m_axis_valid (w t)" "m_axis_ready (w t)"
        "m_axis_data (w t) = packets ! 0 ! i" "m_axis_last (w t) = (int i = 54 - 1)"
        by (simp_all add: packets_length)
      from i show "m_axis_valid (w t)" "m_axis_ready (w t)" by simp_all
      from i show "m_axis_data (w t) = int i" by (simp add: packets_0_nth)
      from i show "m_axis_last (w t) = (i = 53)" by auto }
  qed
qed

theorem capacity_packet_choreography_witness:
  "passed (recv coop_wave 324 (packets ! 0) \<lparr>now = 0, log = []\<rparr>) \<and>
   map snd (entries_since \<lparr>now = 0, log = []\<rparr>
              (recv coop_wave 324 (packets ! 0) \<lparr>now = 0, log = []\<rparr>))
     = choreography 51 52 3 54 \<and>
   (102, Drive_replay True)
     \<in> set (entries_since \<lparr>now = 0, log = []\<rparr>
              (recv coop_wave 324 (packets ! 0) \<lparr>now = 0, log = []\<rparr>)) \<and>
   replayable (coop_wave 102) \<and>
   (321, Beat 53)
     \<in> set (entries_since \<lparr>now = 0, log = []\<rparr>
              (recv coop_wave 324 (packets ! 0) \<lparr>now = 0, log = []\<rparr>)) \<and>
   m_axis_data (coop_wave 321) = 53 \<and> m_axis_last (coop_wave 321)"
proof -
  let ?s = "\<lparr>now = 0, log = []\<rparr>"
  let ?xs = "entries_since ?s (recv coop_wave 324 (packets ! 0) ?s)"
  note t = capacity_packet_choreography[of coop_wave 324 ?s]
  have p: "passed (recv coop_wave 324 (packets ! 0) ?s)"
    by (simp add: recv_coop_0)
  have xs: "?xs = pass_log 0 104 216 54"
    by (simp add: recv_coop_0 entries_since_def)
  have m1: "(102, Drive_replay True) \<in> set ?xs"
    unfolding xs by (simp add: pass_log_def)
  have "sample 216 53 = 321" by (simp add: sample_def next_rising_def)
  then have "(321, Beat 53) \<in> (\<lambda>j. (sample 216 j, Beat j)) ` {0..<54}"
    by (intro image_eqI[of _ _ 53]) simp_all
  then have m2: "(321, Beat 53) \<in> set ?xs"
    unfolding xs by (simp add: pass_log_def)
  from t p have "map snd ?xs = choreography 51 52 3 54" by blast
  moreover from t m1 have "replayable (coop_wave 102)" by blast
  moreover from t m2 have "m_axis_data (coop_wave 321) = 53 \<and> m_axis_last (coop_wave 321)"
    by fastforce
  ultimately show ?thesis using p m1 m2 by blast
qed

text \<open>The claim as it stands has replayable stay high during the three cycles of waiting.
  The bench does not check that: here it passes on a waveform whose replayable is low at
  each of the three edges it waits for.\<close>

theorem capacity_packet_wait_unchecked:
  "passed (recv dip_wave 324 (packets ! 0) \<lparr>now = 0, log = []\<rparr>) \<and>
   (209, Waited) \<in> set (log (final (recv dip_wave 324 (packets ! 0) \<lparr>now = 0, log = []\<rparr>))) \<and>
   (211, Waited) \<in> set (log (final (recv dip_wave 324 (packets ! 0) \<lparr>now = 0, log = []\<rparr>))) \<and>
   (213, Waited) \<in> set (log (final (recv dip_wave 324 (packets ! 0) \<lparr>now = 0, log = []\<rparr>))) \<and>
   \<not> replayable (dip_wave 209) \<and> \<not> replayable (dip_wave 211) \<and>
   \<not> replayable (dip_wave 213)"
  by (simp add: recv_dip_0 pass_log_def dip_replayable)

text \<open>
  Claim C2, as amended. For the packet of 384 elements, \<open>[128..511]\<close>, every run of
  \<^verbatim>\<open>recv\<close> only appends to the log, and what it appends is a prefix of this choreography,
  all of it when the run passes: done lowered, the beats 0 to 50, a replay pulse, the beats
  0 to 51, a second replay pulse with no cycle of waiting before it, done raised, the
  beats 0 to 383. The counts 51 and 52 come from \<open>min(384, 54) = 54\<close>. Each replay is
  raised at an edge where replayable reads high, and each beat is counted at an edge
  where valid and ready are high, data is 128 plus the beat's position and last is high on
  beat 383 only.
\<close>

theorem long_packet_choreography:
  "log (final (recv w hz (packets ! 2) s)) =
     log s @ entries_since s (recv w hz (packets ! 2) s) \<and>
   prefix (map snd (entries_since s (recv w hz (packets ! 2) s))) (choreography 51 52 0 384) \<and>
   (passed (recv w hz (packets ! 2) s) \<longrightarrow>
      map snd (entries_since s (recv w hz (packets ! 2) s)) = choreography 51 52 0 384) \<and>
   (\<forall>(t, e) \<in> set (entries_since s (recv w hz (packets ! 2) s)).
      (e = Drive_replay True \<longrightarrow> replayable (w t)) \<and>
      (\<forall>i. e = Beat i \<longrightarrow>
         m_axis_valid (w t) \<and> m_axis_ready (w t) \<and>
         m_axis_data (w t) = 128 + int i \<and> m_axis_last (w t) = (i = 383)))"
proof (intro conjI)
  let ?xs = "entries_since s (recv w hz (packets ! 2) s)"
  show "log (final (recv w hz (packets ! 2) s)) = log s @ ?xs"
    by (rule recv_entries(1))
  show "prefix (map snd ?xs) (choreography 51 52 0 384)"
    using recv_entries(3)[where w = w and hz = hz and s = s and packet = "packets ! 2"]
    by (simp add: recv_script_2)
  show "passed (recv w hz (packets ! 2) s) \<longrightarrow> map snd ?xs = choreography 51 52 0 384"
    using recv_entries(4)[where w = w and hz = hz and s = s and packet = "packets ! 2"]
    by (simp add: recv_script_2)
  have ok: "list_all (entry_ok w (packets ! 2)) ?xs"
    by (rule recv_entries(2))
  show "\<forall>(t, e) \<in> set ?xs.
      (e = Drive_replay True \<longrightarrow> replayable (w t)) \<and>
      (\<forall>i. e = Beat i \<longrightarrow>
         m_axis_valid (w t) \<and> m_axis_ready (w t) \<and>
         m_axis_data (w t) = 128 + int i \<and> m_axis_last (w t) = (i = 383))"
  proof (clarify, intro conjI allI impI)
    fix t e assume m: "(t, e) \<in> set ?xs"
    with ok have e: "entry_ok w (packets ! 2) (t, e)" by (simp add: list_all_iff)
    { assume "e = Drive_replay True"
      with e show "replayable (w t)" by simp }
    { fix i assume "e = Beat i"
      with e have i: "i < 384" "m_axis_valid (w t)" "m_axis_ready (w t)"
        "m_axis_data (w t) = packets ! 2 ! i" "m_axis_last (w t) = (int i = 384 - 1)"
        by (simp_all add: packets_length)
      from i show "m_axis_valid (w t)" "m_axis_ready (w t)" by simp_all
      from i show "m_axis_data (w t) = 128 + int i" by (simp add: packets_2_nth)
      from i show "m_axis_last (w t) = (i = 383)" by auto }
  qed
qed

theorem long_packet_choreography_witness:
  "passed (recv coop_wave 1640 (packets ! 2) \<lparr>now = 661, log = []\<rparr>) \<and>
   map snd (entries_since \<lparr>now = 661, log = []\<rparr>
              (recv coop_wave 1640 (packets ! 2) \<lparr>now = 661, log = []\<rparr>))
     = choreography 51 52 0 384 \<and>
   (870, Drive_replay True)
     \<in> set (entries_since \<lparr>now = 661, log = []\<rparr>
              (recv coop_wave 1640 (packets ! 2) \<lparr>now = 661, log = []\<rparr>)) \<and>
   replayable (coop_wave 870) \<and>
   (1637, Beat 383)
     \<in> set (entries_since \<lparr>now = 661, log = []\<rparr>
              (recv coop_wave 1640 (packets ! 2) \<lparr>now = 661, log = []\<rparr>)) \<and>
   m_axis_data (coop_wave 1637) = 511 \<and> m_axis_last (coop_wave 1637)"
proof -
  let ?s = "\<lparr>now = 661, log = []\<rparr>"
  let ?xs = "entries_since ?s (recv coop_wave 1640 (packets ! 2) ?s)"
  note t = long_packet_choreography[of coop_wave 1640 ?s]
  have p: "passed (recv coop_wave 1640 (packets ! 2) ?s)"
    by (simp add: recv_coop_2)
  have xs: "?xs = pass_log 661 766 872 384"
    by (simp add: recv_coop_2 entries_since_def)
  have m1: "(870, Drive_replay True) \<in> set ?xs"
    unfolding xs by (simp add: pass_log_def)
  have "sample 872 383 = 1637" by (simp add: sample_def next_rising_def)
  then have "(1637, Beat 383) \<in> (\<lambda>j. (sample 872 j, Beat j)) ` {0..<384}"
    by (intro image_eqI[of _ _ 383]) simp_all
  then have m2: "(1637, Beat 383) \<in> set ?xs"
    unfolding xs by (simp add: pass_log_def)
  from t p have "map snd ?xs = choreography 51 52 0 384" by blast
  moreover from t m1 have "replayable (coop_wave 870)" by blast
  moreover from t m2 have "m_axis_data (coop_wave 1637) = 511 \<and> m_axis_last (coop_wave 1637)"
    by fastforce
  ultimately show ?thesis using p m1 m2 by blast
qed

text \<open>The claim as it stands has the three cycles of waiting before the second replay of
  the long packet as well. Here the bench receives the long packet and passes, and no
  cycle of waiting is in its log: the second replay pulse comes right after the beats 0
  to 51.\<close>

theorem long_packet_no_wait:
  "passed (recv coop_wave 1640 (packets ! 2) \<lparr>now = 661, log = []\<rparr>) \<and>
   map snd (log (final (recv coop_wave 1640 (packets ! 2) \<lparr>now = 661, log = []\<rparr>)))
     = choreography 51 52 0 384 \<and>
   map snd (log (final (recv coop_wave 1640 (packets ! 2) \<lparr>now = 661, log = []\<rparr>)))
     \<noteq> choreography 51 52 3 384 \<and>
   Waited \<notin> set (choreography 51 52 0 384)"
proof -
  have "map snd (pass_log 661 766 872 384) = choreography 51 52 0 384"
    by (simp add: pass_log_def choreography_def beats_def comp_def)
  moreover have "Waited \<notin> set (choreography 51 52 0 384)"
    by (auto simp: choreography_def beats_def)
  moreover have "Waited \<in> set (choreography 51 52 3 384)"
    by (simp add: choreography_def)
  ultimately show ?thesis
    by (auto simp: recv_coop_2)
qed

text \<open>
  Claim C3. Every replay pulse is raised at an edge where the bench has just read
  replayable high: \<^verbatim>\<open>restart\<close> moves to the next falling edge, reads replayable there,
  and raises replay at that same edge, lowering it one cycle later; when replayable
  reads low the assertion fails and replay is not written. So in every run of \<^verbatim>\<open>recv\<close>
  and of the whole test, passing or failing, replay is raised only where replayable is
  high. The bench reads replayable at the edge where it raises replay; it does not read
  it again while the pulse lasts.
\<close>

theorem replay_only_when_replayable:
  "(restart w hz s = Passed s' \<longrightarrow>
      replayable (w (next_falling (now s))) \<and>
      log s' = log s @ [(next_falling (now s), Drive_replay True),
                        (next_falling (now s) + 2, Drive_replay False)]) \<and>
   (next_falling (now s) < hz \<and> \<not> replayable (w (next_falling (now s))) \<longrightarrow>
      restart w hz s = Failed Assert_replayable (s\<lparr>now := next_falling (now s)\<rparr>)) \<and>
   (\<forall>(t, e) \<in> set (entries_since s (recv w hz packet s)).
      e = Drive_replay True \<longrightarrow> replayable (w t)) \<and>
   (\<forall>(t, e) \<in> set (log (final (test_replay w hz))).
      e = Drive_replay True \<longrightarrow> replayable (w t))"
proof (intro conjI)
  show "restart w hz s = Passed s' \<longrightarrow>
      replayable (w (next_falling (now s))) \<and>
      log s' = log s @ [(next_falling (now s), Drive_replay True),
                        (next_falling (now s) + 2, Drive_replay False)]"
    using restart_Passed[of w hz s s'] by blast
  show "next_falling (now s) < hz \<and> \<not> replayable (w (next_falling (now s))) \<longrightarrow>
      restart w hz s = Failed Assert_replayable (s\<lparr>now := next_falling (now s)\<rparr>)"
    using restart_not_replayable[of s hz w] by blast
  from recv_entries(2)[where w = w and packet = packet and hz = hz and s = s]
  show "\<forall>(t, e) \<in> set (entries_since s (recv w hz packet s)).
      e = Drive_replay True \<longrightarrow> replayable (w t)"
    by (auto simp: list_all_iff)
  from does_entries(1,2)[OF does_recv_all[where w = w and hz = hz and ps = packets], of start]
  have "log (final (test_replay w hz)) = log start @ entries_since start (test_replay w hz)"
    and "list_all (\<lambda>x. snd x = Drive_replay True \<longrightarrow> replayable (w (fst x)))
           (entries_since start (test_replay w hz))"
    by (simp_all add: test_replay_def)
  then show "\<forall>(t, e) \<in> set (log (final (test_replay w hz))).
      e = Drive_replay True \<longrightarrow> replayable (w t)"
    by (auto simp: list_all_iff start_def)
qed

theorem replay_only_when_replayable_witness:
  "restart coop_wave 324 \<lparr>now = 101, log = []\<rparr> =
     Passed \<lparr>now = 104, log = [(102, Drive_replay True), (104, Drive_replay False)]\<rparr> \<and>
   replayable (coop_wave 102) \<and>
   \<not> replayable (dip_wave 2) \<and>
   restart dip_wave 324 \<lparr>now = 0, log = []\<rparr> = Failed Assert_replayable \<lparr>now = 2, log = []\<rparr> \<and>
   (214, Drive_replay True)
     \<in> set (entries_since \<lparr>now = 0, log = []\<rparr>
              (recv coop_wave 324 (packets ! 0) \<lparr>now = 0, log = []\<rparr>)) \<and>
   replayable (coop_wave 214) \<and>
   (870, Drive_replay True) \<in> set (log (final (test_replay coop_wave 1640))) \<and>
   replayable (coop_wave 870)"
proof -
  have r: "restart coop_wave 324 \<lparr>now = 101, log = []\<rparr> =
     Passed \<lparr>now = 104, log = [(102, Drive_replay True), (104, Drive_replay False)]\<rparr>"
    using restart_pass[of "\<lparr>now = 101, log = []\<rparr>" 101 coop_wave 324]
    by (simp add: coop_replayable)
  have m1: "(214, Drive_replay True)
     \<in> set (entries_since \<lparr>now = 0, log = []\<rparr>
              (recv coop_wave 324 (packets ! 0) \<lparr>now = 0, log = []\<rparr>))"
    by (simp add: recv_coop_0 entries_since_def pass_log_def)
  have m2: "(870, Drive_replay True) \<in> set (log (final (test_replay coop_wave 1640)))"
    by (simp add: test_replay_coop pass_log_def)
  have d: "\<not> replayable (dip_wave 2)" by (simp add: dip_replayable)
  note t1 = replay_only_when_replayable[of coop_wave 324 "\<lparr>now = 101, log = []\<rparr>"
      "\<lparr>now = 104, log = [(102, Drive_replay True), (104, Drive_replay False)]\<rparr>"
      "packets ! 0"]
  note t2 = replay_only_when_replayable[of dip_wave 324 "\<lparr>now = 0, log = []\<rparr>"
      "\<lparr>now = 0, log = []\<rparr>" "packets ! 0"]
  note t3 = replay_only_when_replayable[of coop_wave 324 "\<lparr>now = 0, log = []\<rparr>"
      "\<lparr>now = 0, log = []\<rparr>" "packets ! 0"]
  note t4 = replay_only_when_replayable[of coop_wave 1640 "\<lparr>now = 0, log = []\<rparr>"
      "\<lparr>now = 0, log = []\<rparr>" "packets ! 0"]
  have nf: "next_falling 101 = 102" "next_falling 0 = 2" by (simp_all add: next_falling_def)
  from t1 r have "replayable (coop_wave 102)" by (simp add: nf)
  moreover from t2 d have "restart dip_wave 324 \<lparr>now = 0, log = []\<rparr> =
      Failed Assert_replayable \<lparr>now = 2, log = []\<rparr>"
    by (simp add: nf)
  moreover from t3 m1 have "replayable (coop_wave 214)" by blast
  moreover from t4 m2 have "replayable (coop_wave 870)" by blast
  ultimately show ?thesis using r d m1 m2 by blast
qed

text \<open>
  Claim C4. In a run of \<^verbatim>\<open>recv\<close> that passes, the beats counted after each replay are
  the positions 0, 1, 2, ... of the packet, as many as \<^verbatim>\<open>recv_len\<close> was asked for, and the
  beat counted at position \<open>i\<close> is the beat at egress position \<open>i\<close> after the replay: the
  edges of the counted beats are those of the successive beats of the egress (valid and
  ready both high) from the edge where replay is lowered, none left out, and at the edge
  of position \<open>i\<close> data is \<^verbatim>\<open>packet[i]\<close> and last is high exactly when \<open>i\<close> is the final
  index. In every run, a beat is counted at position \<open>i\<close> only at an edge where valid and
  ready are high, data is \<^verbatim>\<open>packet[i]\<close> and last is as expected. Any mismatch fails: when
  the beats of the egress at the positions before \<open>j\<close> carry what is expected and the
  beat at position \<open>j\<close>, which \<^verbatim>\<open>recv_len\<close> is asked to receive, does not, \<^verbatim>\<open>recv_len\<close>
  ends at the edge of that beat with the assertion that fails, having counted the \<open>j\<close>
  beats before it.
\<close>

theorem replayed_beats_checked:
  "(passed (recv w hz packet s) \<longrightarrow>
      map snd (entries_since s (recv w hz packet s)) = recv_script packet \<and>
      (\<exists>ts1 tr1 ts2 ws tr2 ts3.
         entries_since s (recv w hz packet s) =
           (now s, Drive_done False) # zip ts1 (beats (length ts1))
           @ [(tr1, Drive_replay True), (tr1 + 2, Drive_replay False)]
           @ zip ts2 (beats (length ts2)) @ ws
           @ [(tr2, Drive_replay True), (tr2 + 2, Drive_replay False),
              (tr2 + 2, Drive_done True)]
           @ zip ts3 (beats (length ts3)) \<and>
         map snd ws = replicate (if length packet \<le> BUF_SIZE then 3 else 0) Waited \<and>
         length ts2 = length (py_take (min (int (length packet)) (int BUF_SIZE) - 2) packet) \<and>
         length ts3 = length packet \<and>
         handshakes w (tr1 + 2) ts2 \<and> handshakes w (tr2 + 2) ts3 \<and>
         (\<forall>i<length ts2. m_axis_data (w (ts2 ! i)) = packet ! i \<and>
            m_axis_last (w (ts2 ! i)) = (int i = int (length packet) - 1)) \<and>
         (\<forall>i<length ts3. m_axis_data (w (ts3 ! i)) = packet ! i \<and>
            m_axis_last (w (ts3 ! i)) = (int i = int (length packet) - 1)))) \<and>
   (\<forall>(t, e) \<in> set (entries_since s (recv w hz packet s)).
      \<forall>i. e = Beat i \<longrightarrow>
        i < length packet \<and> m_axis_valid (w t) \<and> m_axis_ready (w t) \<and>
        m_axis_data (w t) = packet ! i \<and>
        m_axis_last (w t) = (int i = int (length packet) - 1)) \<and>
   (handshakes w (now s) ts \<and> length ts = Suc j \<and> j < length (py_take k packet) \<and>
    (ts ! j = now s \<or> ts ! j < hz) \<and>
    (\<forall>i<j. m_axis_data (w (ts ! i)) = packet ! i \<and>
       m_axis_last (w (ts ! i)) = (int i = int (length packet) - 1)) \<and>
    (m_axis_data (w (ts ! j)) \<noteq> packet ! j \<or>
     m_axis_last (w (ts ! j)) \<noteq> (int j = int (length packet) - 1)) \<longrightarrow>
      recv_len w hz packet k s =
        Failed (if m_axis_data (w (ts ! j)) \<noteq> packet ! j then Assert_data else Assert_last)
          \<lparr>now = ts ! j, log = log s @ zip (take j ts) (beats j)\<rparr>)"
proof (intro conjI impI)
  assume p: "passed (recv w hz packet s)"
  then show "map snd (entries_since s (recv w hz packet s)) = recv_script packet"
    by (rule recv_entries(4))
  from p obtain s' where s': "recv w hz packet s = Passed s'"
    by (cases "recv w hz packet s") simp_all
  from recv_Passed_run[OF s'] obtain ts1 tr1 ts2 ws tr2 ts3 where r:
    "log s' = log s @ (now s, Drive_done False) # zip ts1 (beats (length ts1))
        @ [(tr1, Drive_replay True), (tr1 + 2, Drive_replay False)]
        @ zip ts2 (beats (length ts2)) @ ws
        @ [(tr2, Drive_replay True), (tr2 + 2, Drive_replay False), (tr2 + 2, Drive_done True)]
        @ zip ts3 (beats (length ts3))"
    "length ts2 = length (py_take (min (int (length packet)) (int BUF_SIZE) - 2) packet)"
    "length ts3 = length packet"
    "map snd ws = replicate (if length packet \<le> BUF_SIZE then 3 else 0) Waited"
    "handshakes w (tr1 + 2) ts2" "handshakes w (tr2 + 2) ts3"
    "\<forall>ts \<in> {ts1, ts2, ts3}. \<forall>j<length ts. m_axis_data (w (ts ! j)) = packet ! j \<and>
        m_axis_last (w (ts ! j)) = (int j = int (length packet) - 1)"
    by blast
  from r(1) have e: "entries_since s (recv w hz packet s) =
      (now s, Drive_done False) # zip ts1 (beats (length ts1))
        @ [(tr1, Drive_replay True), (tr1 + 2, Drive_replay False)]
        @ zip ts2 (beats (length ts2)) @ ws
        @ [(tr2, Drive_replay True), (tr2 + 2, Drive_replay False), (tr2 + 2, Drive_done True)]
        @ zip ts3 (beats (length ts3))"
    by (simp add: s' entries_since_def)
  from r(7) have m: "\<forall>i<length ts2. m_axis_data (w (ts2 ! i)) = packet ! i \<and>
            m_axis_last (w (ts2 ! i)) = (int i = int (length packet) - 1)"
    "\<forall>i<length ts3. m_axis_data (w (ts3 ! i)) = packet ! i \<and>
            m_axis_last (w (ts3 ! i)) = (int i = int (length packet) - 1)"
    by simp_all
  from e r(2-6) m show "\<exists>ts1 tr1 ts2 ws tr2 ts3.
         entries_since s (recv w hz packet s) =
           (now s, Drive_done False) # zip ts1 (beats (length ts1))
           @ [(tr1, Drive_replay True), (tr1 + 2, Drive_replay False)]
           @ zip ts2 (beats (length ts2)) @ ws
           @ [(tr2, Drive_replay True), (tr2 + 2, Drive_replay False),
              (tr2 + 2, Drive_done True)]
           @ zip ts3 (beats (length ts3)) \<and>
         map snd ws = replicate (if length packet \<le> BUF_SIZE then 3 else 0) Waited \<and>
         length ts2 = length (py_take (min (int (length packet)) (int BUF_SIZE) - 2) packet) \<and>
         length ts3 = length packet \<and>
         handshakes w (tr1 + 2) ts2 \<and> handshakes w (tr2 + 2) ts3 \<and>
         (\<forall>i<length ts2. m_axis_data (w (ts2 ! i)) = packet ! i \<and>
            m_axis_last (w (ts2 ! i)) = (int i = int (length packet) - 1)) \<and>
         (\<forall>i<length ts3. m_axis_data (w (ts3 ! i)) = packet ! i \<and>
            m_axis_last (w (ts3 ! i)) = (int i = int (length packet) - 1))"
    by blast
next
  from recv_entries(2)[where w = w and hz = hz and s = s and packet = packet]
  show "\<forall>(t, e) \<in> set (entries_since s (recv w hz packet s)).
      \<forall>i. e = Beat i \<longrightarrow>
        i < length packet \<and> m_axis_valid (w t) \<and> m_axis_ready (w t) \<and>
        m_axis_data (w t) = packet ! i \<and>
        m_axis_last (w t) = (int i = int (length packet) - 1)"
    by (auto simp: list_all_iff)
next
  assume a: "handshakes w (now s) ts \<and> length ts = Suc j \<and> j < length (py_take k packet) \<and>
    (ts ! j = now s \<or> ts ! j < hz) \<and>
    (\<forall>i<j. m_axis_data (w (ts ! i)) = packet ! i \<and>
       m_axis_last (w (ts ! i)) = (int i = int (length packet) - 1)) \<and>
    (m_axis_data (w (ts ! j)) \<noteq> packet ! j \<or>
     m_axis_last (w (ts ! j)) \<noteq> (int j = int (length packet) - 1))"
  then show "recv_len w hz packet k s =
        Failed (if m_axis_data (w (ts ! j)) \<noteq> packet ! j then Assert_data else Assert_last)
          \<lparr>now = ts ! j, log = log s @ zip (take j ts) (beats j)\<rparr>"
    by (intro recv_len_mismatch_at) blast+
qed

theorem replayed_beats_checked_witness:
  "passed (recv coop_wave 324 (packets ! 0) \<lparr>now = 0, log = []\<rparr>) \<and>
   map snd (entries_since \<lparr>now = 0, log = []\<rparr>
              (recv coop_wave 324 (packets ! 0) \<lparr>now = 0, log = []\<rparr>))
     = recv_script (packets ! 0) \<and>
   (\<exists>ts1 tr1 ts2 ws tr2 ts3.
      pass_log 0 104 216 54 =
        (0, Drive_done False) # zip ts1 (beats (length ts1))
        @ [(tr1, Drive_replay True), (tr1 + 2, Drive_replay False)]
        @ zip ts2 (beats (length ts2)) @ ws
        @ [(tr2, Drive_replay True), (tr2 + 2, Drive_replay False),
           (tr2 + 2, Drive_done True)]
        @ zip ts3 (beats (length ts3)) \<and>
      map snd ws = replicate 3 Waited \<and> length ts2 = 52 \<and> length ts3 = 54 \<and>
      handshakes coop_wave (tr1 + 2) ts2 \<and> handshakes coop_wave (tr2 + 2) ts3 \<and>
      (\<forall>i<length ts2. m_axis_data (coop_wave (ts2 ! i)) = packets ! 0 ! i \<and>
         m_axis_last (coop_wave (ts2 ! i)) = (int i = 53)) \<and>
      (\<forall>i<length ts3. m_axis_data (coop_wave (ts3 ! i)) = packets ! 0 ! i \<and>
         m_axis_last (coop_wave (ts3 ! i)) = (int i = 53))) \<and>
   (105, Beat 1)
     \<in> set (entries_since \<lparr>now = 0, log = []\<rparr>
              (recv coop_wave 324 (packets ! 0) \<lparr>now = 0, log = []\<rparr>)) \<and>
   m_axis_valid (coop_wave 105) \<and> m_axis_ready (coop_wave 105) \<and>
   m_axis_data (coop_wave 105) = packets ! 0 ! 1 \<and> \<not> m_axis_last (coop_wave 105) \<and>
   handshakes paced_wave 0 [1, 5, 9] \<and>
   m_axis_data (paced_wave 1) = 0 \<and> m_axis_data (paced_wave 5) = 1 \<and>
   m_axis_data (paced_wave 9) \<noteq> 5 \<and>
   recv_len paced_wave 40 [0, 1, 5] 3 \<lparr>now = 0, log = []\<rparr>
     = Failed Assert_data \<lparr>now = 9, log = [(1, Beat 0), (5, Beat 1)]\<rparr>"
proof -
  let ?s = "\<lparr>now = 0, log = []\<rparr>"
  let ?xs = "entries_since ?s (recv coop_wave 324 (packets ! 0) ?s)"
  note t = replayed_beats_checked[of coop_wave 324 "packets ! 0" ?s]
  note u = replayed_beats_checked[of paced_wave 40 "[0, 1, 5]" ?s "[1, 5, 9]" 2 3]
  have p: "passed (recv coop_wave 324 (packets ! 0) ?s)"
    by (simp add: recv_coop_0)
  have xs: "?xs = pass_log 0 104 216 54"
    by (simp add: recv_coop_0 entries_since_def)
  have "sample 104 1 = 105" by (simp add: sample_def next_rising_def)
  then have "(105, Beat 1) \<in> (\<lambda>j. (sample 104 j, Beat j)) ` {0..<52}"
    by (intro image_eqI[of _ _ 1]) simp_all
  then have m: "(105, Beat 1) \<in> set ?xs"
    unfolding xs by (simp add: pass_log_def)
  from t p have c1: "map snd ?xs = recv_script (packets ! 0)" by blast
  have c2: "\<exists>ts1 tr1 ts2 ws tr2 ts3.
      pass_log 0 104 216 54 =
        (0, Drive_done False) # zip ts1 (beats (length ts1))
        @ [(tr1, Drive_replay True), (tr1 + 2, Drive_replay False)]
        @ zip ts2 (beats (length ts2)) @ ws
        @ [(tr2, Drive_replay True), (tr2 + 2, Drive_replay False),
           (tr2 + 2, Drive_done True)]
        @ zip ts3 (beats (length ts3)) \<and>
      map snd ws = replicate 3 Waited \<and> length ts2 = 52 \<and> length ts3 = 54 \<and>
      handshakes coop_wave (tr1 + 2) ts2 \<and> handshakes coop_wave (tr2 + 2) ts3 \<and>
      (\<forall>i<length ts2. m_axis_data (coop_wave (ts2 ! i)) = packets ! 0 ! i \<and>
         m_axis_last (coop_wave (ts2 ! i)) = (int i = 53)) \<and>
      (\<forall>i<length ts3. m_axis_data (coop_wave (ts3 ! i)) = packets ! 0 ! i \<and>
         m_axis_last (coop_wave (ts3 ! i)) = (int i = 53))"
    using t[THEN conjunct1, THEN mp, OF p, THEN conjunct2]
    by (simp add: xs packets_length BUF_SIZE_def py_take_def)
  from t[THEN conjunct2, THEN conjunct1] m
  have "m_axis_valid (coop_wave 105) \<and> m_axis_ready (coop_wave 105) \<and>
      m_axis_data (coop_wave 105) = packets ! 0 ! 1 \<and>
      m_axis_last (coop_wave 105) = (int 1 = int (length (packets ! 0)) - 1)"
    by fastforce
  then have c3: "m_axis_valid (coop_wave 105)" "m_axis_ready (coop_wave 105)"
      "m_axis_data (coop_wave 105) = packets ! 0 ! 1" "\<not> m_axis_last (coop_wave 105)"
    by (simp_all add: packets_length)
  have h: "handshakes paced_wave 0 [1, 5, 9]" by code_simp
  have d: "m_axis_data (paced_wave 1) = 0" "m_axis_data (paced_wave 5) = 1"
    "m_axis_data (paced_wave 9) \<noteq> 5"
    by (simp_all add: paced_wave_def)
  have l: "\<not> m_axis_last (paced_wave 1)" "\<not> m_axis_last (paced_wave 5)"
    by (simp_all add: paced_wave_def)
  have before: "\<forall>i<2. m_axis_data (paced_wave ([1, 5, 9] ! i)) = [0, 1, 5] ! i \<and>
       m_axis_last (paced_wave ([1, 5, 9] ! i)) = (int i = int (length [0, 1, 5 :: int]) - 1)"
    using d l by (auto simp: less_Suc_eq numeral_2_eq_2)
  have pre: "handshakes paced_wave (now ?s) [1, 5, 9] \<and> length [1, 5, 9 :: nat] = Suc 2 \<and>
      2 < length (py_take 3 [0, 1, 5 :: int]) \<and>
      ([1, 5, 9] ! 2 = now ?s \<or> [1, 5, 9] ! 2 < (40 :: nat)) \<and>
      (\<forall>i<2. m_axis_data (paced_wave ([1, 5, 9] ! i)) = [0, 1, 5] ! i \<and>
         m_axis_last (paced_wave ([1, 5, 9] ! i)) = (int i = int (length [0, 1, 5 :: int]) - 1)) \<and>
      (m_axis_data (paced_wave ([1, 5, 9] ! 2)) \<noteq> [0, 1, 5] ! 2 \<or>
       m_axis_last (paced_wave ([1, 5, 9] ! 2)) \<noteq> (int 2 = int (length [0, 1, 5 :: int]) - 1))"
    using h before d(3) by (simp add: py_take_def)
  from u[THEN conjunct2, THEN conjunct2, THEN mp, OF pre] d(3)
  have f: "recv_len paced_wave 40 [0, 1, 5] 3 ?s =
      Failed Assert_data \<lparr>now = 9, log = [(1, Beat 0), (5, Beat 1)]\<rparr>"
    by (simp add: beats_def numeral_2_eq_2)
  show ?thesis
    by (intro conjI) (rule p c1 c2 m c3 h d f)+
qed






text \<open>
  Claim C7. In every run of \<^verbatim>\<open>recv\<close> the writes to done are at most two, first a
  lowering and then a raising. In a run that passes, done is lowered first, raised once,
  right after the pulse of the second replay, and after that only beats are counted: no
  write to done or to replay follows. Over a sequence of packets, and so over the three of
  the test, the writes to done of a run that passes alternate, one lowering at the start
  of each reception and one raising in it; the test starts with done lowered before the
  clock runs.
\<close>

theorem done_once_per_packet:
  "prefix (driven_done (map snd (entries_since s (recv w hz packet s)))) [False, True] \<and>
   (passed (recv w hz packet s) \<longrightarrow>
      (\<exists>pre post.
         map snd (entries_since s (recv w hz packet s)) =
           Drive_done False # pre @ [Drive_replay True, Drive_replay False, Drive_done True] @ post \<and>
         driven_done pre = [] \<and> driven_done post = [] \<and>
         (\<forall>b. Drive_replay b \<notin> set post))) \<and>
   (passed (seq (map (recv w hz) ps) s) \<longrightarrow>
      driven_done (map snd (entries_since s (seq (map (recv w hz) ps) s))) =
        concat (map (\<lambda>p. [False, True]) ps)) \<and>
   prefix (driven_done (map snd (log (final (test_replay w hz)))))
     [False, False, True, False, True, False, True] \<and>
   (passed (test_replay w hz) \<longrightarrow>
      driven_done (map snd (log (final (test_replay w hz)))) =
        [False, False, True, False, True, False, True])"
proof (intro conjI)
  let ?xs = "entries_since s (recv w hz packet s)"
  let ?r = "min (int (length packet)) (int BUF_SIZE)"
  from recv_entries(3)[where w = w and hz = hz and s = s and packet = packet]
  show "prefix (driven_done (map snd ?xs)) [False, True]"
    using driven_done_prefix driven_done_recv_script by metis
  show "passed (recv w hz packet s) \<longrightarrow>
      (\<exists>pre post.
         map snd ?xs =
           Drive_done False # pre @ [Drive_replay True, Drive_replay False, Drive_done True] @ post \<and>
         driven_done pre = [] \<and> driven_done post = [] \<and>
         (\<forall>b. Drive_replay b \<notin> set post))"
  proof
    assume "passed (recv w hz packet s)"
    with recv_entries(4)[where w = w and hz = hz and s = s and packet = packet]
    have "map snd ?xs = recv_script packet" by blast
    then show "\<exists>pre post.
         map snd ?xs =
           Drive_done False # pre @ [Drive_replay True, Drive_replay False, Drive_done True] @ post \<and>
         driven_done pre = [] \<and> driven_done post = [] \<and>
         (\<forall>b. Drive_replay b \<notin> set post)"
      by (intro exI[of _ "beats (length (py_take (?r - 3) packet))
              @ [Drive_replay True, Drive_replay False]
              @ beats (length (py_take (?r - 2) packet))
              @ replicate (if length packet \<le> BUF_SIZE then 3 else 0) Waited"]
            exI[of _ "beats (length packet)"])
         (simp add: recv_script_def choreography_def Let_def driven_done_append
            driven_done_beats driven_done_Waited Drive_replay_beats)
  qed
  let ?Q = "\<lambda>x. snd x = Drive_replay True \<longrightarrow> replayable (w (fst x))"
  show "passed (seq (map (recv w hz) ps) s) \<longrightarrow>
      driven_done (map snd (entries_since s (seq (map (recv w hz) ps) s))) =
        concat (map (\<lambda>p. [False, True]) ps)"
    using does_entries(4)[OF does_recv_all[where w = w and hz = hz and ps = ps], of s]
    by (simp add: driven_done_scripts)
  have t: "log (final (test_replay w hz)) = log start @ entries_since start (test_replay w hz)"
    using does_entries(1)[OF does_recv_all[where w = w and hz = hz and ps = packets], of start]
    by (simp add: test_replay_def)
  have three: "concat (map (\<lambda>p. [False, True]) packets) = [False, True, False, True, False, True]"
    by (subst packets_list) simp
  have "prefix (map snd (entries_since start (test_replay w hz)))
          (concat (map recv_script packets))"
    using does_entries(3)[OF does_recv_all[where w = w and hz = hz and ps = packets], of start]
    by (simp add: test_replay_def)
  from driven_done_prefix[OF this]
  have "prefix (driven_done (map snd (entries_since start (test_replay w hz))))
          [False, True, False, True, False, True]"
    by (simp add: driven_done_scripts three)
  then show "prefix (driven_done (map snd (log (final (test_replay w hz)))))
     [False, False, True, False, True, False, True]"
    unfolding t by (simp add: driven_done_append start_def)
  show "passed (test_replay w hz) \<longrightarrow>
      driven_done (map snd (log (final (test_replay w hz)))) =
        [False, False, True, False, True, False, True]"
  proof
    assume "passed (test_replay w hz)"
    with does_entries(4)[OF does_recv_all[where w = w and hz = hz and ps = packets], of start]
    have "map snd (entries_since start (test_replay w hz)) = concat (map recv_script packets)"
      by (simp add: test_replay_def)
    then have "driven_done (map snd (entries_since start (test_replay w hz))) =
        [False, True, False, True, False, True]"
      by (simp add: driven_done_scripts three)
    then show "driven_done (map snd (log (final (test_replay w hz)))) =
        [False, False, True, False, True, False, True]"
      unfolding t by (simp add: driven_done_append start_def)
  qed
qed


theorem done_once_per_packet_witness:
  "passed (recv coop_wave 324 (packets ! 0) \<lparr>now = 0, log = []\<rparr>) \<and>
   (\<exists>pre post.
      map snd (pass_log 0 104 216 54) =
        Drive_done False # pre @ [Drive_replay True, Drive_replay False, Drive_done True] @ post \<and>
      driven_done pre = [] \<and> driven_done post = [] \<and>
      (\<forall>b. Drive_replay b \<notin> set post)) \<and>
   passed (test_replay coop_wave 1640) \<and>
   driven_done (map snd (log (final (test_replay coop_wave 1640)))) =
     [False, False, True, False, True, False, True]"
proof -
  let ?s = "\<lparr>now = 0, log = []\<rparr>"
  note t = done_once_per_packet[of ?s coop_wave 324 "packets ! 0" "[]"]
  note u = done_once_per_packet[of ?s coop_wave 1640 "packets ! 0" "[]"]
  have p: "passed (recv coop_wave 324 (packets ! 0) ?s)"
    by (simp add: recv_coop_0)
  have xs: "entries_since ?s (recv coop_wave 324 (packets ! 0) ?s) = pass_log 0 104 216 54"
    by (simp add: recv_coop_0 entries_since_def)
  have q: "passed (test_replay coop_wave 1640)"
    by (simp add: test_replay_coop)
  from t p have "\<exists>pre post.
      map snd (pass_log 0 104 216 54) =
        Drive_done False # pre @ [Drive_replay True, Drive_replay False, Drive_done True] @ post \<and>
      driven_done pre = [] \<and> driven_done post = [] \<and>
      (\<forall>b. Drive_replay b \<notin> set post)"
    unfolding xs by blast
  moreover from u q have "driven_done (map snd (log (final (test_replay coop_wave 1640)))) =
     [False, False, True, False, True, False, True]"
    by blast
  ultimately show ?thesis using p q by blast
qed

text \<open>
  Claim C8. The pairing of each element with its flag is that of \<^verbatim>\<open>lookahead\<close>, which
  is modelled from the spec. For a packet that is not empty, the flags are false for
  every element but the final one and true for that one, and the elements are those of
  the packet in order; the values \<^verbatim>\<open>send_packet\<close> writes to the last pin are these flags,
  all of them in a run that passes and a prefix of them in every run. So a packet sent
  whole is a sequence of as many beats as the list has elements, at least one, with last
  high on the final beat only.
\<close>

theorem last_only_on_final_element:
  assumes "packet \<noteq> []" "0 < ratio"
  shows "map fst (lookahead packet) = packet \<and>
         map snd (lookahead packet) = replicate (length packet - 1) False @ [True] \<and>
         prefix (driven_last (map snd (entries_since s (send_packet w hz has_err packet ratio s))))
           (replicate (length packet - 1) False @ [True]) \<and>
         (passed (send_packet w hz has_err packet ratio s) \<longrightarrow>
            driven_last (map snd (entries_since s (send_packet w hz has_err packet ratio s))) =
              replicate (length packet - 1) False @ [True])"
proof (intro conjI)
  let ?ev = "map snd (entries_since s (send_packet w hz has_err packet ratio s))"
  show "map fst (lookahead packet) = packet" by (rule lookahead_fst)
  show l: "map snd (lookahead packet) = replicate (length packet - 1) False @ [True]"
    using assms(1) by (rule lookahead_snd)
  have "prefix ?ev (concat (map (beat_events has_err ratio) (lookahead packet)))"
    by (rule send_packet_entries(3))
  from driven_last_prefix[OF this]
  show "prefix (driven_last ?ev) (replicate (length packet - 1) False @ [True])"
    by (simp add: driven_last_beats l)
  show "passed (send_packet w hz has_err packet ratio s) \<longrightarrow>
      driven_last ?ev = replicate (length packet - 1) False @ [True]"
    using send_packet_entries(4)[where w = w and hz = hz and s = s and packet = packet
      and has_err = has_err and ratio = ratio]
    by (auto simp: driven_last_beats l)
qed

theorem last_only_on_final_element_witness:
  "[Some 5, None] \<noteq> ([] :: int option list) \<and> (0::nat) < 4 \<and>
   passed (send_packet ingress_wave 40 True [Some 5, None] 4 \<lparr>now = 0, log = []\<rparr>) \<and>
   map snd (lookahead [Some (5::int), None]) = [False, True] \<and>
   driven_last (map snd (entries_since \<lparr>now = 0, log = []\<rparr>
      (send_packet ingress_wave 40 True [Some 5, None] 4 \<lparr>now = 0, log = []\<rparr>)))
     = [False, True]"
proof -
  have p: "passed (send_packet ingress_wave 40 True [Some 5, None] 4 \<lparr>now = 0, log = []\<rparr>)"
    by (simp add: send_packet_ingress)
  have n: "[Some 5, None] \<noteq> ([] :: int option list)" "(0::nat) < 4" by simp_all
  from last_only_on_final_element[OF n, of "\<lparr>now = 0, log = []\<rparr>" ingress_wave 40 True] p
  show ?thesis by simp
qed

text \<open>
  Claim C9, as amended. On a signal map with \<^verbatim>\<open>'err'\<close>, the turn of the loop for an
  element that is \<^verbatim>\<open>None\<close> starts by writing data 0, err 1, valid 1 and the flag to last;
  for any other element it starts by writing the element to data, err 0, valid 1 and the
  flag to last. On a signal map without \<^verbatim>\<open>'err'\<close> the element is assigned to data with no
  test: for an integer the turn starts by writing it to data, then valid 1 and the flag to
  last; for \<^verbatim>\<open>None\<close> the assignment raises \<^verbatim>\<open>TypeError\<close>, nothing is written for that
  element, and \<^verbatim>\<open>send_packet\<close> ends there, after the turns of the elements before it. Err
  is never written without \<^verbatim>\<open>'err'\<close>. Over a packet sent whole, the values written to
  data and to err are, element by element of the iteration, 0 and 1 for \<^verbatim>\<open>None\<close> and the
  element and 0 otherwise; without \<^verbatim>\<open>'err'\<close> a packet sent whole has no \<^verbatim>\<open>None\<close> and the
  values written to data are its elements.
\<close>

theorem error_beats:
  assumes "0 < ratio"
  shows "(\<exists>rest. entries_since s (send_beat w hz True ratio (None, l) s) =
      (now s, Drive_data 0) # (now s, Drive_err True) #
      (now s, Drive_valid True) # (now s, Drive_last l) # rest) \<and>
   (\<exists>rest. entries_since s (send_beat w hz True ratio (Some v, l) s) =
      (now s, Drive_data v) # (now s, Drive_err False) #
      (now s, Drive_valid True) # (now s, Drive_last l) # rest) \<and>
   (\<exists>rest. entries_since s (send_beat w hz False ratio (Some v, l) s) =
      (now s, Drive_data v) # (now s, Drive_valid True) # (now s, Drive_last l) # rest) \<and>
   send_beat w hz False ratio (None, l) s = Failed Type_error s \<and>
   (lookahead packet = vls @ (None, l) # others \<longrightarrow>
      send_packet w hz False packet ratio s =
        (case seq (map (send_beat w hz False ratio) vls) s of
           Passed s1 \<Rightarrow> Failed Type_error s1
         | Failed e s1 \<Rightarrow> Failed e s1)) \<and>
   driven_err (map snd (entries_since s (send_packet w hz False packet ratio s))) = [] \<and>
   (passed (send_packet w hz True packet ratio s) \<longrightarrow>
      driven_data (map snd (entries_since s (send_packet w hz True packet ratio s))) =
        map (\<lambda>x. case x of None \<Rightarrow> 0 | Some v \<Rightarrow> v) (map fst (lookahead packet)) \<and>
      driven_err (map snd (entries_since s (send_packet w hz True packet ratio s))) =
        map (\<lambda>x. x = None) (map fst (lookahead packet))) \<and>
   (passed (send_packet w hz False packet ratio s) \<longrightarrow>
      None \<notin> set (map fst (lookahead packet)) \<and>
      map Some (driven_data (map snd (entries_since s (send_packet w hz False packet ratio s)))) =
        map fst (lookahead packet))"
proof (intro conjI)
  show "\<exists>rest. entries_since s (send_beat w hz True ratio (None, l) s) =
      (now s, Drive_data 0) # (now s, Drive_err True) #
      (now s, Drive_valid True) # (now s, Drive_last l) # rest"
    using send_beat_entries[of True "(None, l)" s w hz ratio] by (simp add: drives_def)
  show "\<exists>rest. entries_since s (send_beat w hz True ratio (Some v, l) s) =
      (now s, Drive_data v) # (now s, Drive_err False) #
      (now s, Drive_valid True) # (now s, Drive_last l) # rest"
    using send_beat_entries[of True "(Some v, l)" s w hz ratio] by (simp add: drives_def)
  show "\<exists>rest. entries_since s (send_beat w hz False ratio (Some v, l) s) =
      (now s, Drive_data v) # (now s, Drive_valid True) # (now s, Drive_last l) # rest"
    using send_beat_entries[of False "(Some v, l)" s w hz ratio] by (simp add: drives_def)
  show "send_beat w hz False ratio (None, l) s = Failed Type_error s"
    by (rule send_beat_None)
  show "lookahead packet = vls @ (None, l) # others \<longrightarrow>
      send_packet w hz False packet ratio s =
        (case seq (map (send_beat w hz False ratio) vls) s of
           Passed s1 \<Rightarrow> Failed Type_error s1
         | Failed e s1 \<Rightarrow> Failed e s1)"
    using send_beats_None[of w hz ratio vls l others s] by (simp add: send_packet_def)
  have "prefix (map snd (entries_since s (send_packet w hz False packet ratio s)))
     (concat (map (beat_events False ratio) (lookahead packet)))"
    by (rule send_packet_entries(3))
  then obtain zs where "concat (map (beat_events False ratio) (lookahead packet)) =
      map snd (entries_since s (send_packet w hz False packet ratio s)) @ zs"
    by (auto simp: prefix_def)
  from arg_cong[OF this, of driven_err]
  show "driven_err (map snd (entries_since s (send_packet w hz False packet ratio s))) = []"
    by (simp add: driven_data_beats driven_err_append)
  show "passed (send_packet w hz True packet ratio s) \<longrightarrow>
      driven_data (map snd (entries_since s (send_packet w hz True packet ratio s))) =
        map (\<lambda>x. case x of None \<Rightarrow> 0 | Some v \<Rightarrow> v) (map fst (lookahead packet)) \<and>
      driven_err (map snd (entries_since s (send_packet w hz True packet ratio s))) =
        map (\<lambda>x. x = None) (map fst (lookahead packet))"
    using send_packet_entries(4)[where w = w and hz = hz and s = s and packet = packet
      and has_err = True and ratio = ratio]
    by (auto simp: driven_data_beats)
  show "passed (send_packet w hz False packet ratio s) \<longrightarrow>
      None \<notin> set (map fst (lookahead packet)) \<and>
      map Some (driven_data (map snd (entries_since s (send_packet w hz False packet ratio s)))) =
        map fst (lookahead packet)"
  proof
    assume p: "passed (send_packet w hz False packet ratio s)"
    then obtain s' where "seq (map (send_beat w hz False ratio) (lookahead packet)) s = Passed s'"
      by (cases "send_packet w hz False packet ratio s") (simp_all add: send_packet_def)
    from send_beats_no_None[OF this] have n: "None \<notin> set (map fst (lookahead packet))" .
    from send_packet_entries(4)[OF p] driven_data_plain[OF n, of ratio]
    show "None \<notin> set (map fst (lookahead packet)) \<and>
      map Some (driven_data (map snd (entries_since s (send_packet w hz False packet ratio s)))) =
        map fst (lookahead packet)"
      using n by simp
  qed
qed

theorem error_beats_witness:
  "passed (send_packet ingress_wave 40 True [Some 5, None] 4 \<lparr>now = 0, log = []\<rparr>) \<and>
   driven_data (map snd (entries_since \<lparr>now = 0, log = []\<rparr>
      (send_packet ingress_wave 40 True [Some 5, None] 4 \<lparr>now = 0, log = []\<rparr>)))
     = [5, 0] \<and>
   driven_err (map snd (entries_since \<lparr>now = 0, log = []\<rparr>
      (send_packet ingress_wave 40 True [Some 5, None] 4 \<lparr>now = 0, log = []\<rparr>)))
     = [False, True] \<and>
   passed (send_packet ingress_wave 40 False [Some 5, Some 6] 1 \<lparr>now = 0, log = []\<rparr>) \<and>
   driven_data (map snd (entries_since \<lparr>now = 0, log = []\<rparr>
      (send_packet ingress_wave 40 False [Some 5, Some 6] 1 \<lparr>now = 0, log = []\<rparr>)))
     = [5, 6] \<and>
   lookahead [Some 5, None, Some 7] = [(Some 5, False)] @ (None, False) # [(Some (7::int), True)] \<and>
   seq (map (send_beat ingress_wave 40 False 1) [(Some 5, False)]) \<lparr>now = 0, log = []\<rparr> =
     Passed \<lparr>now = 4,
       log = [(0, Drive_data 5), (0, Drive_valid True), (0, Drive_last False),
              (4, Drive_valid False)]\<rparr> \<and>
   send_packet ingress_wave 40 False [Some 5, None, Some 7] 1 \<lparr>now = 0, log = []\<rparr> =
     Failed Type_error \<lparr>now = 4,
       log = [(0, Drive_data 5), (0, Drive_valid True), (0, Drive_last False),
              (4, Drive_valid False)]\<rparr>"
proof -
  let ?s = "\<lparr>now = 0, log = []\<rparr>"
  let ?s1 = "\<lparr>now = 4,
       log = [(0, Drive_data 5), (0, Drive_valid True), (0, Drive_last False),
              (4, Drive_valid False)]\<rparr>"
  have p: "passed (send_packet ingress_wave 40 True [Some 5, None] 4 ?s)"
    by (simp add: send_packet_ingress)
  have q: "passed (send_packet ingress_wave 40 False [Some 5, Some 6] 1 ?s)"
    by code_simp
  have la: "lookahead [Some 5, None, Some 7] =
      [(Some 5, False)] @ (None, False) # [(Some (7::int), True)]"
    by simp
  have one: "seq (map (send_beat ingress_wave 40 False 1) [(Some 5, False)]) ?s = Passed ?s1"
    by code_simp
  have r: "(0::nat) < 4" "(0::nat) < 1" by simp_all
  from error_beats[OF r(1), where w = ingress_wave and hz = 40 and s = ?s
      and packet = "[Some 5, None]"] p
  have a: "driven_data (map snd (entries_since ?s
      (send_packet ingress_wave 40 True [Some 5, None] 4 ?s))) = [5, 0]"
    "driven_err (map snd (entries_since ?s
      (send_packet ingress_wave 40 True [Some 5, None] 4 ?s))) = [False, True]"
    by (simp_all add: lookahead_fst)
  from error_beats[OF r(2), where w = ingress_wave and hz = 40 and s = ?s
      and packet = "[Some 5, Some 6]"] q
  have "map Some (driven_data (map snd (entries_since ?s
      (send_packet ingress_wave 40 False [Some 5, Some 6] 1 ?s)))) = [Some 5, Some 6]"
    by (simp add: lookahead_fst)
  then have b: "driven_data (map snd (entries_since ?s
      (send_packet ingress_wave 40 False [Some 5, Some 6] 1 ?s))) = [5, 6]"
    by (auto simp: map_eq_Cons_conv)
  from error_beats[OF r(2), where w = ingress_wave and hz = 40 and s = ?s
      and packet = "[Some 5, None, Some 7]" and vls = "[(Some 5, False)]" and l = False
      and others = "[(Some 7, True)]"] la
  have "send_packet ingress_wave 40 False [Some 5, None, Some 7] 1 ?s =
      (case seq (map (send_beat ingress_wave 40 False 1) [(Some 5, False)]) ?s of
         Passed s1 \<Rightarrow> Failed Type_error s1
       | Failed e s1 \<Rightarrow> Failed e s1)"
    by blast
  then have c: "send_packet ingress_wave 40 False [Some 5, None, Some 7] 1 ?s =
      Failed Type_error ?s1"
    by (simp only: one outcome.case)
  show ?thesis
    by (intro conjI) (rule p a q b la one c)+
qed

text \<open>The claim as it stands has data driven with the element whatever it is when there
  is no \<^verbatim>\<open>'err'\<close>. Here \<^verbatim>\<open>send_packet\<close> is given the packet 5, \<^verbatim>\<open>None\<close> on a signal map
  without \<^verbatim>\<open>'err'\<close>: it sends 5, and at \<^verbatim>\<open>None\<close> it ends with \<^verbatim>\<open>TypeError\<close>. Data was written
  once, with 5, and nothing was written for the second element.\<close>

theorem none_without_err_not_driven:
  "send_packet ingress_wave 40 False [Some 5, None] 1 \<lparr>now = 0, log = []\<rparr> =
     Failed Type_error \<lparr>now = 4,
       log = [(0, Drive_data 5), (0, Drive_valid True), (0, Drive_last False),
              (4, Drive_valid False)]\<rparr> \<and>
   driven_data [Drive_data 5, Drive_valid True, Drive_last False, Drive_valid False] = [5] \<and>
   length (lookahead [Some (5::int), None]) = 2"
proof (intro conjI)
  show "send_packet ingress_wave 40 False [Some 5, None] 1 \<lparr>now = 0, log = []\<rparr> =
     Failed Type_error \<lparr>now = 4,
       log = [(0, Drive_data 5), (0, Drive_valid True), (0, Drive_last False),
              (4, Drive_valid False)]\<rparr>"
    by code_simp
  show "driven_data [Drive_data 5, Drive_valid True, Drive_last False, Drive_valid False] = [5]"
    by simp
  show "length (lookahead [Some (5::int), None]) = 2"
    by simp
qed

end
